theory Spec2Isabelle
  imports Main "HOL-Library.Sublist"
begin

section \<open>Data model (src/index.ts, section Types)\<close>

text \<open>
  The model follows the program of lines 1-353 of src/index.ts, the task manager with
  pending, archived and hidden tasks. (An earlier version of it, kept behind it in the
  same file, is not modelled.)

  The interfaces \<open>Task\<close> and \<open>TaskData\<close>. The field \<open>id\<close> is called \<open>id_num\<close> here,
  since \<open>id\<close> is the identity function of HOL. An optional field (\<open>completedAt?\<close>,
  \<open>hiddenAt?\<close>) is an \<open>option\<close>: \<open>None\<close> is the absent property.

  Numbers: a number of the program is a double. The program only ever produces whole
  numbers (ids counted up, array lengths, results of \<open>parseInt\<close>), and the model keeps a
  whole number as a mathematical integer. The one arithmetic operation on stored numbers,
  \<open>data.nextId++\<close>, rounds its result to a double (\<open>increment\<close> below). A numeral of
  the file that is a whole number is read with its exact value; \<open>JSON.parse\<close> would round
  one that no double holds (more than 53 significant binary digits), which is not among
  the numerals that \<open>JSON.stringify\<close> writes. A file with a fraction as \<open>id\<close> or \<open>nextId\<close>
  holds no \<open>TaskData\<close>.

  Strings: a JavaScript string is a sequence of code units; the model is \<open>string\<close>, the
  code units below 256 (Latin-1). Task names with other characters are outside the model.

  The interfaces are the data model of the program, and the commands are modelled on
  values of these types. The file can hold another value, which \<open>loadTasks\<close> returns
  unchecked: see \<open>loaded\<close> and \<open>taskDataOf\<close> below for what the model says then.
\<close>

record Task =
  id_num :: int
  name :: string
  completed :: bool
  hidden :: bool
  createdAt :: string
  completedAt :: "string option"
  hiddenAt :: "string option"

record TaskData =
  tasks :: "Task list"
  nextId :: int

section \<open>The environment: storage file, clock, console\<close>

text \<open>
  The program's only persistent state is the file \<open>DATA_FILE\<close>:
  \<^item> \<open>Missing\<close>: \<open>existsSync(DATA_FILE)\<close> is false;
  \<^item> \<open>Unreadable\<close>: the file exists and \<open>readFileSync\<close> throws;
  \<^item> \<open>Content text\<close>: the file exists and \<open>readFileSync\<close> returns \<open>text\<close>.
  The flag \<open>writable\<close> says whether \<open>writeFileSync\<close> succeeds; no command changes it.
  Reading and writing as UTF-8 returns the string that was written, so the content is the
  string itself.
\<close>

datatype file_state = Missing | Unreadable | Content string

record fs =
  dataFile :: file_state
  writable :: bool

text \<open>
  \<open>new Date().toISOString()\<close> reads the clock: a command gets the readings it will make
  as a function, \<open>clk k\<close> being the reading number \<open>k\<close> (from 0) during the command.
\<close>

type_synonym clock = "nat \<Rightarrow> string"

text \<open>One constructor for each \<open>console.log\<close> / \<open>console.error\<close> call of the source.\<close>

datatype message =
    LoadWarning
  | SaveError
  | TaskAdded string
  | SerialNumber nat
  | NoPendingTasks
  | Rule
  | PendingTitle
  | PendingItem nat string
  | PendingTotal nat
  | InvalidTaskNumber
  | Completed string
  | NoPendingToDelete
  | DeletedPending nat
  | NoArchivedToDelete
  | DeletedArchived nat
  | InvalidInput
  | DeleteUsage
  | Deleted string
  | NoCompletedInArchive
  | ArchiveTitle
  | ArchiveItem nat string
  | ArchiveCompletedAt "string option"
  | ArchiveTotal nat
  | HelpText
  | LocationTitle
  | LocationPath
  | FileExists bool
  | Goodbye
  | ProvideTaskName
  | AddUsage
  | ProvideValidNumber
  | DoneUsage
  | ProvideWhatToDelete
  | UnknownCommand string
  | HelpHint

text \<open>
  The only exception a command can raise by itself is a \<open>TypeError\<close>: a property access
  on \<open>undefined\<close> or \<open>null\<close>, or a call of something that is no function
  (\<open>data.tasks[-1].completed\<close> when \<open>findIndex\<close> finds nothing; \<open>data.tasks.filter\<close> when
  the file holds a value that has no array \<open>tasks\<close>).

  \<open>OutsideModel\<close> is no exception of the program. It marks the runs that the model does
  not follow: a command works with a file whose value has an array \<open>tasks\<close> but is no
  \<open>TaskData\<close> (see \<open>taskDataOf\<close> below).
\<close>

datatype error = TypeError | OutsideModel

section \<open>Numbers of the runtime\<close>

text \<open>
  Every whole number up to \<open>2 ^ 53\<close> in absolute value is a double. Above, the doubles
  are spaced: with \<open>53 + k\<close> binary digits they are the multiples of \<open>2 ^ k\<close>, which is
  \<open>ulp\<close> of the absolute value.
\<close>

fun ulp :: "nat \<Rightarrow> nat" where
  "ulp a = (if a < 2 ^ 53 then 1 else 2 * ulp (a div 2))"

declare ulp.simps [simp del]

text \<open>
  The result of an arithmetic operation is the double nearest to the exact result, and of
  two nearest ones the one with the even mantissa. \<open>toDouble x\<close> is this double for a
  whole number \<open>x\<close>.
\<close>

definition toDouble :: "int \<Rightarrow> int" where
  "toDouble x =
     (let a = nat \<bar>x\<bar>;
          u = ulp a;
          q = a div u;
          r = a mod u;
          q' = (if u < 2 * r \<or> (u = 2 * r \<and> odd q) then q + 1 else q)
      in sgn x * int (q' * u))"

text \<open>The new value of \<open>n\<close> after \<open>n++\<close>.\<close>

definition increment :: "int \<Rightarrow> int" where
  "increment n = toDouble (n + 1)"

section \<open>String operations of the runtime used by the commands\<close>

text \<open>
  White space of \<open>String.prototype.trim\<close>, of the regular expression class \<open>\s\<close> and of
  \<open>parseInt\<close> (the same set: WhiteSpace and LineTerminator), below 256: TAB, LF, VT, FF,
  CR, SP and NBSP.
\<close>

definition isWhite :: "char \<Rightarrow> bool" where
  "isWhite c = (of_char c \<in> {9, 10, 11, 12, 13, 32, 160 :: nat})"

definition trim :: "string \<Rightarrow> string" where
  "trim s = rev (dropWhile isWhite (rev (dropWhile isWhite s)))"

text \<open>
  \<open>toLowerCase\<close> below 256: \<open>A\<close>..\<open>Z\<close> and the accented capitals \<open>0xC0\<close>..\<open>0xDE\<close> (but the
  multiplication sign \<open>0xD7\<close>) move up by 32. Bit 5 (value 32) is clear in all of them, so
  adding 32 is setting that bit (lemma \<open>lowerChar_plus32\<close>).
\<close>

definition isUpper :: "char \<Rightarrow> bool" where
  "isUpper c = (let n = (of_char c :: nat) in
     (65 \<le> n \<and> n \<le> 90) \<or> (192 \<le> n \<and> n \<le> 222 \<and> n \<noteq> 215))"

definition lowerChar :: "char \<Rightarrow> char" where
  "lowerChar c = (if isUpper c
     then (case c of Char b0 b1 b2 b3 b4 b5 b6 b7 \<Rightarrow> Char b0 b1 b2 b3 b4 True b6 b7)
     else c)"

definition toLowerCase :: "string \<Rightarrow> string" where
  "toLowerCase s = map lowerChar s"

text \<open>
  \<open>s.split(/\s+/)\<close>: the pieces of \<open>s\<close> between the maximal runs of white space. A run at
  the start or the end of \<open>s\<close> leaves an empty piece there, and the empty string gives
  one empty piece.
\<close>

function split_ws :: "string \<Rightarrow> string list" where
  "split_ws s =
     (let tok = takeWhile (\<lambda>c. \<not> isWhite c) s;
          rest = dropWhile (\<lambda>c. \<not> isWhite c) s
      in if rest = [] then [tok] else tok # split_ws (dropWhile isWhite rest))"
  by pat_completeness auto
termination
proof (relation "measure length")
  show "wf (measure (length :: string \<Rightarrow> nat))" by simp
next
  fix s tok rest :: string
  assume r: "rest = dropWhile (\<lambda>c. \<not> isWhite c) s" and ne: "rest \<noteq> []"
  from ne r have w: "isWhite (hd rest)"
    using hd_dropWhile [of "\<lambda>c. \<not> isWhite c" s] by simp
  from ne w have "dropWhile isWhite rest = dropWhile isWhite (tl rest)"
    by (cases rest) simp_all
  then have "length (dropWhile isWhite rest) \<le> length (tl rest)"
    using length_dropWhile_le [of isWhite "tl rest"] by simp
  also from ne have "\<dots> < length rest" by (cases rest) simp_all
  also from r have "\<dots> \<le> length s"
    using length_dropWhile_le [of "\<lambda>c. \<not> isWhite c" s] by simp
  finally show "(dropWhile isWhite rest, s) \<in> measure length" by simp
qed

declare split_ws.simps [simp del]

text \<open>\<open>parts.join(" ")\<close>.\<close>

fun join_sp :: "string list \<Rightarrow> string" where
  "join_sp [] = []"
| "join_sp [p] = p"
| "join_sp (p # q # ps) = p @ CHR '' '' # join_sp (q # ps)"

text \<open>
  \<open>parseInt(s, 10)\<close>: skip leading white space, read an optional sign, then the longest
  run of decimal digits; \<open>NaN\<close> (here \<open>None\<close>) when there is no digit. Whatever follows
  the digits is ignored. With the radix given as 10 no \<open>0x\<close> prefix is read. The result
  is kept exact here; the program only compares it with 1 and with the length of an array,
  where the rounding of a long run of digits to a double makes no difference.
\<close>

definition isDigit :: "char \<Rightarrow> bool" where
  "isDigit c = (48 \<le> (of_char c :: nat) \<and> (of_char c :: nat) \<le> 57)"

definition digitsValue :: "string \<Rightarrow> int" where
  "digitsValue ds = foldl (\<lambda>a c. 10 * a + (int (of_char c) - 48)) 0 ds"

definition parseInt :: "string \<Rightarrow> int option" where
  "parseInt s =
     (let t = dropWhile isWhite s;
          (sign, u) = (case t of
              [] \<Rightarrow> (1, t)
            | c # r \<Rightarrow> if c = CHR ''-'' then (-1, r) else if c = CHR ''+'' then (1, r) else (1, t));
          ds = takeWhile isDigit u
      in if ds = [] then None else Some (sign * digitsValue ds))"

section \<open>JSON text (\<open>JSON.stringify\<close> and \<open>JSON.parse\<close> of the runtime)\<close>

text \<open>
  A JSON value. A number is kept exactly, as mantissa and decimal exponent: \<open>JNumber m e\<close>
  is \<open>m * 10 ^ e\<close>. An object is the list of its members in the order of the text.
\<close>

datatype json =
    JNull
  | JBool bool
  | JNumber int int
  | JString string
  | JArray "json list"
  | JObject "(string \<times> json) list"

text \<open>White space of the JSON grammar: TAB, LF, CR and SP.\<close>

definition isJsonWhite :: "char \<Rightarrow> bool" where
  "isJsonWhite c = (of_char c \<in> {9, 10, 13, 32 :: nat})"

definition skip_ws :: "string \<Rightarrow> string" where
  "skip_ws s = dropWhile isJsonWhite s"

text \<open>
  The characters of a string literal, after the opening quote and up to the closing one:
  no control character, the two-character escapes, and \<open>\uXXXX\<close> with four hexadecimal
  digits (a code unit of 256 or more is outside the model of strings).
\<close>

definition hexValue :: "char \<Rightarrow> nat option" where
  "hexValue c = (let n = (of_char c :: nat) in
     if 48 \<le> n \<and> n \<le> 57 then Some (n - 48)
     else if 65 \<le> n \<and> n \<le> 70 then Some (n - 55)
     else if 97 \<le> n \<and> n \<le> 102 then Some (n - 87)
     else None)"

definition unescape :: "char \<Rightarrow> char option" where
  "unescape e =
     (if e = CHR 0x22 then Some (CHR 0x22)
      else if e = CHR 0x5C then Some (CHR 0x5C)
      else if e = CHR ''/'' then Some (CHR ''/'')
      else if e = CHR ''b'' then Some (CHR 0x08)
      else if e = CHR ''f'' then Some (CHR 0x0C)
      else if e = CHR ''n'' then Some (CHR 0x0A)
      else if e = CHR ''r'' then Some (CHR 0x0D)
      else if e = CHR ''t'' then Some (CHR 0x09)
      else None)"

fun parse_chars :: "string \<Rightarrow> (string \<times> string) option" where
  "parse_chars [] = None"
| "parse_chars (c # cs) =
     (if c = CHR 0x22 then Some ([], cs)
      else if c = CHR 0x5C then
        (case cs of
           [] \<Rightarrow> None
         | e # r \<Rightarrow>
             if e = CHR ''u'' then
               (case r of
                  h1 # h2 # h3 # h4 # r' \<Rightarrow>
                    (case (hexValue h1, hexValue h2, hexValue h3, hexValue h4) of
                       (Some a, Some b, Some c', Some d) \<Rightarrow>
                         if a = 0 \<and> b = 0
                         then map_option (\<lambda>(s, rest). (char_of (16 * c' + d) # s, rest))
                                (parse_chars r')
                         else None
                     | _ \<Rightarrow> None)
                | _ \<Rightarrow> None)
             else
               (case unescape e of
                  None \<Rightarrow> None
                | Some ch \<Rightarrow> map_option (\<lambda>(s, rest). (ch # s, rest)) (parse_chars r)))
      else if (of_char c :: nat) < 32 then None
      else map_option (\<lambda>(s, rest). (c # s, rest)) (parse_chars cs))"

text \<open>
  The parser, by recursive descent: a value; the elements of an array after the first
  bracket; the members of an object after the first brace. The elements and members read
  so far are carried along.
\<close>

datatype mode = Value | Elements "json list" | Members "(string \<times> json) list"

text \<open>
  A number: an optional minus sign, an integer part without leading zero, an optional
  fraction, an optional exponent.
\<close>

definition parse_sign :: "string \<Rightarrow> int \<times> string" where
  "parse_sign s =
     (case s of [] \<Rightarrow> (1, s) | c # r \<Rightarrow> if c = CHR ''-'' then (-1, r) else (1, s))"

definition parse_frac :: "string \<Rightarrow> (string \<times> string) option" where
  "parse_frac s =
     (case s of
        [] \<Rightarrow> Some ([], s)
      | c # r \<Rightarrow>
          if c = CHR ''.''
          then (let fp = takeWhile isDigit r
                in if fp = [] then None else Some (fp, dropWhile isDigit r))
          else Some ([], s))"

definition parse_exp :: "string \<Rightarrow> (int \<times> string) option" where
  "parse_exp s =
     (case s of
        [] \<Rightarrow> Some (0, s)
      | c # r \<Rightarrow>
          if c = CHR ''e'' \<or> c = CHR ''E''
          then (let (es, r1) = (case r of
                    [] \<Rightarrow> (1, r)
                  | d # r' \<Rightarrow> if d = CHR ''-'' then (-1, r')
                            else if d = CHR ''+'' then (1, r') else (1, r));
                    ep = takeWhile isDigit r1
                in if ep = [] then None else Some (es * digitsValue ep, dropWhile isDigit r1))
          else Some (0, s))"

definition parse_number :: "string \<Rightarrow> (json \<times> string) option" where
  "parse_number s =
     (let (sign, s1) = parse_sign s;
          ip = takeWhile isDigit s1
      in if ip = [] \<or> (hd ip = CHR ''0'' \<and> length ip > 1) then None
         else
           (case parse_frac (dropWhile isDigit s1) of
              None \<Rightarrow> None
            | Some (fp, s3) \<Rightarrow>
                (case parse_exp s3 of
                   None \<Rightarrow> None
                 | Some (ex, s4) \<Rightarrow>
                     Some (JNumber (sign * digitsValue (ip @ fp)) (ex - int (length fp)), s4))))"

partial_function (option) parse :: "mode \<Rightarrow> string \<Rightarrow> (json \<times> string) option" where
  "parse m s =
     (case m of
        Value \<Rightarrow>
          (case skip_ws s of
             [] \<Rightarrow> None
           | c # r \<Rightarrow>
               if c = CHR ''{'' then
                 (case skip_ws r of
                    [] \<Rightarrow> None
                  | d # r' \<Rightarrow> if d = CHR ''}'' then Some (JObject [], r') else parse (Members []) r)
               else if c = CHR ''['' then
                 (case skip_ws r of
                    [] \<Rightarrow> None
                  | d # r' \<Rightarrow> if d = CHR '']'' then Some (JArray [], r') else parse (Elements []) r)
               else if c = CHR 0x22 then
                 map_option (\<lambda>(x, r'). (JString x, r')) (parse_chars r)
               else if take 4 (c # r) = ''true'' then Some (JBool True, drop 4 (c # r))
               else if take 5 (c # r) = ''false'' then Some (JBool False, drop 5 (c # r))
               else if take 4 (c # r) = ''null'' then Some (JNull, drop 4 (c # r))
               else parse_number (c # r))
      | Elements acc \<Rightarrow>
          Option.bind (parse Value s) (\<lambda>(v, r).
            (case skip_ws r of
               [] \<Rightarrow> None
             | c # r' \<Rightarrow>
                 if c = CHR '','' then parse (Elements (acc @ [v])) r'
                 else if c = CHR '']'' then Some (JArray (acc @ [v]), r')
                 else None))
      | Members acc \<Rightarrow>
          (case skip_ws s of
             [] \<Rightarrow> None
           | q # r \<Rightarrow>
               if q \<noteq> CHR 0x22 then None
               else
                 (case parse_chars r of
                    None \<Rightarrow> None
                  | Some (k, r1) \<Rightarrow>
                      (case skip_ws r1 of
                         [] \<Rightarrow> None
                       | c # r2 \<Rightarrow>
                           if c \<noteq> CHR '':'' then None
                           else
                             Option.bind (parse Value r2) (\<lambda>(v, r3).
                               (case skip_ws r3 of
                                  [] \<Rightarrow> None
                                | d # r4 \<Rightarrow>
                                    if d = CHR '','' then parse (Members (acc @ [(k, v)])) r4
                                    else if d = CHR ''}'' then Some (JObject (acc @ [(k, v)]), r4)
                                    else None))))))"

text \<open>\<open>JSON.parse\<close>: one value, and nothing but white space after it; \<open>None\<close> when it throws.\<close>

definition JSON_parse :: "string \<Rightarrow> json option" where
  "JSON_parse text =
     (case parse Value text of
        None \<Rightarrow> None
      | Some (j, rest) \<Rightarrow> if skip_ws rest = [] then Some j else None)"

declare parse.simps [code]

text \<open>
  \<open>JSON.stringify(data, null, 2)\<close>. A string is quoted with the escapes of
  \<open>QuoteJSONString\<close>; an integer is written in decimal (JavaScript writes an exponent
  from \<open>10 ^ 21\<close> on, far above the whole numbers a double holds exactly); arrays and
  objects are indented by two spaces a level, one element or member a line, and \<open>[]\<close> or
  \<open>{}\<close> when empty.
\<close>

definition hexDigit :: "nat \<Rightarrow> char" where
  "hexDigit k = (if k < 10 then char_of (48 + k) else char_of (87 + k))"

definition quoteChar :: "char \<Rightarrow> string" where
  "quoteChar c =
     (if c = CHR 0x08 then [CHR 0x5C, CHR ''b'']
      else if c = CHR 0x09 then [CHR 0x5C, CHR ''t'']
      else if c = CHR 0x0A then [CHR 0x5C, CHR ''n'']
      else if c = CHR 0x0C then [CHR 0x5C, CHR ''f'']
      else if c = CHR 0x0D then [CHR 0x5C, CHR ''r'']
      else if c = CHR 0x22 then [CHR 0x5C, CHR 0x22]
      else if c = CHR 0x5C then [CHR 0x5C, CHR 0x5C]
      else if (of_char c :: nat) < 32
      then [CHR 0x5C, CHR ''u'', CHR ''0'', CHR ''0'',
            hexDigit (of_char c div 16), hexDigit (of_char c mod 16)]
      else [c])"

definition quote :: "string \<Rightarrow> string" where
  "quote s = CHR 0x22 # concat (map quoteChar s) @ [CHR 0x22]"

fun digits :: "nat \<Rightarrow> string" where
  "digits n = (if n < 10 then [char_of (48 + n)] else digits (n div 10) @ [char_of (48 + n mod 10)])"

declare digits.simps [simp del]

definition showInt :: "int \<Rightarrow> string" where
  "showInt i = (if i < 0 then CHR ''-'' # digits (nat (- i)) else digits (nat i))"

definition nl :: "nat \<Rightarrow> string" where
  "nl k = CHR 0x0A # replicate k (CHR '' '')"

fun joinWith :: "string \<Rightarrow> string list \<Rightarrow> string" where
  "joinWith sep [] = []"
| "joinWith sep [p] = p"
| "joinWith sep (p # q # ps) = p @ sep @ joinWith sep (q # ps)"

fun pp :: "nat \<Rightarrow> json \<Rightarrow> string" where
  "pp ind JNull = ''null''"
| "pp ind (JBool b) = (if b then ''true'' else ''false'')"
| "pp ind (JNumber m e) = (if e = 0 then showInt m else showInt m @ CHR ''e'' # showInt e)"
| "pp ind (JString s) = quote s"
| "pp ind (JArray xs) =
     (if xs = [] then ''[]''
      else CHR ''['' # nl (ind + 2)
           @ joinWith (CHR '','' # nl (ind + 2)) (map (pp (ind + 2)) xs)
           @ nl ind @ '']'')"
| "pp ind (JObject ms) =
     (if ms = [] then ''{}''
      else CHR ''{'' # nl (ind + 2)
           @ joinWith (CHR '','' # nl (ind + 2))
               (map (\<lambda>(k, v). quote k @ '': '' @ pp (ind + 2) v) ms)
           @ nl ind @ ''}'')"

text \<open>
  The JSON value of a \<open>TaskData\<close>: the properties of the interfaces, an absent optional
  property being left out.
\<close>

definition taskJSON :: "Task \<Rightarrow> json" where
  "taskJSON t = JObject
     ([(''id'', JNumber (id_num t) 0), (''name'', JString (name t)),
       (''completed'', JBool (completed t)), (''hidden'', JBool (hidden t)),
       (''createdAt'', JString (createdAt t))]
      @ (case completedAt t of None \<Rightarrow> [] | Some s \<Rightarrow> [(''completedAt'', JString s)])
      @ (case hiddenAt t of None \<Rightarrow> [] | Some s \<Rightarrow> [(''hiddenAt'', JString s)]))"

definition toJSON :: "TaskData \<Rightarrow> json" where
  "toJSON d = JObject [(''tasks'', JArray (map taskJSON (tasks d))), (''nextId'', JNumber (nextId d) 0)]"

definition JSON_stringify :: "TaskData \<Rightarrow> string" where
  "JSON_stringify d = pp 0 (toJSON d)"

text \<open>
  A parsed value seen as a \<open>TaskData\<close>: the properties are read by name (of a repeated
  name the last member counts), \<open>id\<close> and \<open>nextId\<close> have to be whole numbers. \<open>None\<close> when
  the value has not the shape of the interfaces: a property is missing or of another type,
  or there is a member that the interface does not have.
\<close>

definition onlyKeys :: "string list \<Rightarrow> (string \<times> json) list \<Rightarrow> bool" where
  "onlyKeys ks ms = list_all (\<lambda>(k, v). k \<in> set ks) ms"

definition property :: "(string \<times> json) list \<Rightarrow> string \<Rightarrow> json option" where
  "property ms k = map_of (rev ms) k"

definition asInteger :: "int \<Rightarrow> int \<Rightarrow> int option" where
  "asInteger m e =
     (if 0 \<le> e then Some (m * 10 ^ nat e)
      else if m mod 10 ^ nat (- e) = 0 then Some (m div 10 ^ nat (- e)) else None)"

definition optionalString :: "json option \<Rightarrow> string option option" where
  "optionalString p =
     (case p of None \<Rightarrow> Some None | Some (JString s) \<Rightarrow> Some (Some s) | Some _ \<Rightarrow> None)"

definition asTask :: "json \<Rightarrow> Task option" where
  "asTask j =
     (case j of
        JObject ms \<Rightarrow>
          if \<not> onlyKeys [''id'', ''name'', ''completed'', ''hidden'', ''createdAt'',
                           ''completedAt'', ''hiddenAt''] ms
          then None
          else
          (case (property ms ''id'', property ms ''name'', property ms ''completed'',
                 property ms ''hidden'', property ms ''createdAt'',
                 optionalString (property ms ''completedAt''),
                 optionalString (property ms ''hiddenAt'')) of
             (Some (JNumber m e), Some (JString n), Some (JBool c), Some (JBool h),
              Some (JString ca), Some co, Some ho) \<Rightarrow>
               (case asInteger m e of
                  None \<Rightarrow> None
                | Some i \<Rightarrow>
                    Some \<lparr>id_num = i, name = n, completed = c, hidden = h, createdAt = ca,
                          completedAt = co, hiddenAt = ho\<rparr>)
           | _ \<Rightarrow> None)
      | _ \<Rightarrow> None)"

fun allSome :: "'a option list \<Rightarrow> 'a list option" where
  "allSome [] = Some []"
| "allSome (x # xs) =
     (case x of None \<Rightarrow> None | Some y \<Rightarrow> map_option ((#) y) (allSome xs))"

definition asTaskData :: "json \<Rightarrow> TaskData option" where
  "asTaskData j =
     (case j of
        JObject ms \<Rightarrow>
          if \<not> onlyKeys [''tasks'', ''nextId''] ms then None
          else
          (case (property ms ''tasks'', property ms ''nextId'') of
             (Some (JArray xs), Some (JNumber m e)) \<Rightarrow>
               (case (allSome (map asTask xs), asInteger m e) of
                  (Some ts, Some n) \<Rightarrow> Some \<lparr>tasks = ts, nextId = n\<rparr>
                | _ \<Rightarrow> None)
           | _ \<Rightarrow> None)
      | _ \<Rightarrow> None)"

text \<open>Whether a parsed value has a property \<open>tasks\<close> that is an array.\<close>

definition hasTasksArray :: "json \<Rightarrow> bool" where
  "hasTasksArray j =
     (case j of
        JObject ms \<Rightarrow> (case property ms ''tasks'' of Some (JArray xs) \<Rightarrow> True | _ \<Rightarrow> False)
      | _ \<Rightarrow> False)"

section \<open>Data operations (src/index.ts, lines 25-43)\<close>

definition emptyData :: TaskData where
  "emptyData = \<lparr>tasks = [], nextId = 1\<rparr>"

text \<open>
  \<open>loadTasks\<close> returns \<open>JSON.parse(content)\<close> as it is, under the type \<open>TaskData\<close> but
  unchecked: \<open>Data data\<close> when the parsed value is a \<open>TaskData\<close>, and \<open>Other j\<close> with the
  parsed value \<open>j\<close> when it is not. Only a text that \<open>JSON.parse\<close> rejects, and a file
  that cannot be read, are caught and replaced by the empty data, with a warning.
\<close>

datatype loaded = Data TaskData | Other json

definition loadTasks :: "fs \<Rightarrow> loaded \<times> message list" where
  "loadTasks st =
     (case dataFile st of
        Missing \<Rightarrow> (Data emptyData, [])
      | Unreadable \<Rightarrow> (Data emptyData, [LoadWarning])
      | Content text \<Rightarrow>
          (case JSON_parse text of
             None \<Rightarrow> (Data emptyData, [LoadWarning])
           | Some j \<Rightarrow>
               (case asTaskData j of
                  Some data \<Rightarrow> (Data data, [])
                | None \<Rightarrow> (Other j, []))))"

text \<open>
  The commands use the loaded value as a \<open>TaskData\<close>; each of them that uses it at all
  reads \<open>data.nextId\<close> or calls \<open>data.tasks.filter\<close> or \<open>data.tasks.push\<close> first.
  \<^item> For a \<open>TaskData\<close> this is the typed program, which the model follows.
  \<^item> For a value without an array \<open>tasks\<close> (\<open>null\<close>, a number, a string, an array, an
    object without \<open>tasks\<close> or with another value there) this first use raises a
    \<open>TypeError\<close>: a property of \<open>null\<close> or \<open>undefined\<close> is read, or \<open>filter\<close> or \<open>push\<close>
    is no function.
  \<^item> For any other value (it has an array \<open>tasks\<close>, but a task lacks \<open>hidden\<close>, an id
    is a fraction, \<open>nextId\<close> is a string, there is a further member, ...) the program
    goes on with the value; what it does then depends on how the runtime reads and
    coerces each property. The model does not follow it: \<open>OutsideModel\<close>.
\<close>

definition taskDataOf :: "loaded \<Rightarrow> error + TaskData" where
  "taskDataOf v =
     (case v of
        Data data \<Rightarrow> Inr data
      | Other j \<Rightarrow> Inl (if hasTasksArray j then OutsideModel else TypeError))"

definition saveTasks :: "TaskData \<Rightarrow> fs \<Rightarrow> fs \<times> message list" where
  "saveTasks data st =
     (if writable st then (st\<lparr>dataFile := Content (JSON_stringify data)\<rparr>, [])
      else (st, [SaveError]))"

section \<open>Helper functions (lines 46-52)\<close>

definition getPendingTasks :: "TaskData \<Rightarrow> Task list" where
  "getPendingTasks data = filter (\<lambda>task. \<not> completed task \<and> \<not> hidden task) (tasks data)"

definition getArchivedTasks :: "TaskData \<Rightarrow> Task list" where
  "getArchivedTasks data = filter (\<lambda>task. completed task \<and> \<not> hidden task) (tasks data)"

text \<open>\<open>Array.prototype.findIndex\<close>; \<open>None\<close> is the result -1.\<close>

fun findIndex :: "('a \<Rightarrow> bool) \<Rightarrow> 'a list \<Rightarrow> nat option" where
  "findIndex P [] = None"
| "findIndex P (x # xs) = (if P x then Some 0 else map_option Suc (findIndex P xs))"

section \<open>Commands (lines 55-244)\<close>

definition addTask :: "clock \<Rightarrow> string \<Rightarrow> fs \<Rightarrow> error + fs \<times> message list" where
  "addTask clk taskName st =
     (let (loadedValue, m1) = loadTasks st
      in case taskDataOf loadedValue of
           Inl e \<Rightarrow> Inl e
         | Inr data \<Rightarrow>
             let newTask = \<lparr>id_num = nextId data, name = taskName, completed = False,
                            hidden = False, createdAt = clk 0, completedAt = None,
                            hiddenAt = None\<rparr>;
                 data = data\<lparr>tasks := tasks data @ [newTask]\<rparr>;
                 data = data\<lparr>nextId := increment (nextId data)\<rparr>;
                 (st', m2) = saveTasks data st;
                 pendingTasks = getPendingTasks data;
                 serialNumber = length pendingTasks
             in Inr (st', m1 @ m2 @ [TaskAdded taskName, SerialNumber serialNumber]))"

definition displayTasks :: "fs \<Rightarrow> error + fs \<times> message list" where
  "displayTasks st =
     (let (loadedValue, m1) = loadTasks st
      in case taskDataOf loadedValue of
           Inl e \<Rightarrow> Inl e
         | Inr data \<Rightarrow>
             let pendingTasks = getPendingTasks data
             in if length pendingTasks = 0 then Inr (st, m1 @ [NoPendingTasks])
                else Inr (st, m1 @ [Rule, PendingTitle, Rule]
                        @ map (\<lambda>(index, task). PendingItem (index + 1) (name task))
                              (enumerate 0 pendingTasks)
                        @ [Rule, PendingTotal (length pendingTasks), Rule]))"

definition markDone :: "clock \<Rightarrow> int \<Rightarrow> fs \<Rightarrow> error + fs \<times> message list" where
  "markDone clk serialNumber st =
     (let (loadedValue, m1) = loadTasks st
      in case taskDataOf loadedValue of
           Inl e \<Rightarrow> Inl e
         | Inr data \<Rightarrow>
             let pendingTasks = getPendingTasks data
             in if serialNumber < 1 \<or> serialNumber > int (length pendingTasks)
                then Inr (st, m1 @ [InvalidTaskNumber])
                else
                  let taskToComplete = pendingTasks ! nat (serialNumber - 1) in
                  (case findIndex (\<lambda>t. id_num t = id_num taskToComplete) (tasks data) of
                     None \<Rightarrow> Inl TypeError
                   | Some taskIndex \<Rightarrow>
                       let data = data\<lparr>tasks := (tasks data)[taskIndex :=
                                    (tasks data ! taskIndex)\<lparr>completed := True,
                                                             completedAt := Some (clk 0)\<rparr>]\<rparr>;
                           (st', m2) = saveTasks data st
                       in Inr (st', m1 @ m2 @ [Completed (name taskToComplete)])))"

text \<open>
  The \<open>forEach\<close> loop of \<open>deleteTask\<close> (lines 132-137 and 153-158), over the tasks of a
  view computed before the loop: each round finds the task by its id in \<open>data.tasks\<close>,
  hides it there, reads the clock and counts.
\<close>

fun hideEach :: "clock \<Rightarrow> Task list \<Rightarrow> TaskData \<Rightarrow> nat \<Rightarrow> error + TaskData \<times> nat" where
  "hideEach clk [] data count = Inr (data, count)"
| "hideEach clk (task # rest) data count =
     (case findIndex (\<lambda>t. id_num t = id_num task) (tasks data) of
        None \<Rightarrow> Inl TypeError
      | Some taskIndex \<Rightarrow>
          hideEach clk rest
            (data\<lparr>tasks := (tasks data)[taskIndex :=
                     (tasks data ! taskIndex)\<lparr>hidden := True, hiddenAt := Some (clk count)\<rparr>]\<rparr>)
            (count + 1))"

text \<open>
  \<open>deleteTask\<close> loads first and uses the loaded value only where a branch needs it: an
  argument that is neither \<open>all\<close> nor \<open>archive\<close> nor starts with a number is reported
  without a look at the data.
\<close>

definition deleteTask :: "clock \<Rightarrow> string \<Rightarrow> fs \<Rightarrow> error + fs \<times> message list" where
  "deleteTask clk input st =
     (let (loadedValue, m1) = loadTasks st;
          arg = trim (toLowerCase input)
      in if arg = ''all'' then
           (case taskDataOf loadedValue of
              Inl e \<Rightarrow> Inl e
            | Inr data \<Rightarrow>
                let pendingTasks = getPendingTasks data
                in if length pendingTasks = 0 then Inr (st, m1 @ [NoPendingToDelete])
                   else (case hideEach clk pendingTasks data 0 of
                           Inl e \<Rightarrow> Inl e
                         | Inr (data, count) \<Rightarrow>
                             let (st', m2) = saveTasks data st
                             in Inr (st', m1 @ m2 @ [DeletedPending count])))
         else if arg = ''archive'' then
           (case taskDataOf loadedValue of
              Inl e \<Rightarrow> Inl e
            | Inr data \<Rightarrow>
                let archivedTasks = getArchivedTasks data
                in if length archivedTasks = 0 then Inr (st, m1 @ [NoArchivedToDelete])
                   else (case hideEach clk archivedTasks data 0 of
                           Inl e \<Rightarrow> Inl e
                         | Inr (data, count) \<Rightarrow>
                             let (st', m2) = saveTasks data st
                             in Inr (st', m1 @ m2 @ [DeletedArchived count])))
         else
           (case parseInt arg of
              None \<Rightarrow> Inr (st, m1 @ [InvalidInput, DeleteUsage])
            | Some serialNumber \<Rightarrow>
                (case taskDataOf loadedValue of
                   Inl e \<Rightarrow> Inl e
                 | Inr data \<Rightarrow>
                     let pendingTasks = getPendingTasks data
                     in if serialNumber < 1 \<or> serialNumber > int (length pendingTasks)
                        then Inr (st, m1 @ [InvalidTaskNumber])
                        else
                          let taskToDelete = pendingTasks ! nat (serialNumber - 1) in
                          (case findIndex (\<lambda>t. id_num t = id_num taskToDelete) (tasks data) of
                             None \<Rightarrow> Inl TypeError
                           | Some taskIndex \<Rightarrow>
                               let data = data\<lparr>tasks := (tasks data)[taskIndex :=
                                            (tasks data ! taskIndex)\<lparr>hidden := True,
                                                                     hiddenAt := Some (clk 0)\<rparr>]\<rparr>;
                                   (st', m2) = saveTasks data st
                               in Inr (st', m1 @ m2 @ [Deleted (name taskToDelete)])))))"

definition showArchive :: "fs \<Rightarrow> error + fs \<times> message list" where
  "showArchive st =
     (let (loadedValue, m1) = loadTasks st
      in case taskDataOf loadedValue of
           Inl e \<Rightarrow> Inl e
         | Inr data \<Rightarrow>
             let completedTasks = getArchivedTasks data
             in if length completedTasks = 0 then Inr (st, m1 @ [NoCompletedInArchive])
                else Inr (st, m1 @ [Rule, ArchiveTitle, Rule]
                        @ concat (map (\<lambda>(index, task).
                                         [ArchiveItem (index + 1) (name task),
                                          ArchiveCompletedAt (completedAt task)])
                                      (enumerate 0 completedTasks))
                        @ [Rule, ArchiveTotal (length completedTasks), Rule]))"

definition showHelp :: "fs \<Rightarrow> fs \<times> message list" where
  "showHelp st = (st, [HelpText])"

definition showLocation :: "fs \<Rightarrow> fs \<times> message list" where
  "showLocation st = (st, [LocationTitle, LocationPath, FileExists (dataFile st \<noteq> Missing)])"

section \<open>Process command (lines 247-316)\<close>

text \<open>
  The result is the command's return value (\<open>False\<close> stops the session), the storage
  after it and what it printed; \<open>Inl\<close> is an exception that leaves \<open>processCommand\<close>.
\<close>

definition processCommand :: "clock \<Rightarrow> string \<Rightarrow> fs \<Rightarrow> error + bool \<times> fs \<times> message list" where
  "processCommand clk input st =
     (let trimmed = trim input
      in if trimmed = [] then Inr (True, st, [])
         else
           (case split_ws trimmed of
              [] \<Rightarrow> Inl TypeError
            | part0 # others \<Rightarrow>
                let command = toLowerCase part0;
                    args = join_sp others
                in if command = ''exit'' \<or> command = ''quit'' \<or> command = ''q''
                   then Inr (False, st, [Goodbye])
                   else if command = ''add'' then
                     (if args = [] then Inr (True, st, [ProvideTaskName, AddUsage])
                      else (case addTask clk args st of
                              Inl e \<Rightarrow> Inl e
                            | Inr (st', m) \<Rightarrow> Inr (True, st', m)))
                   else if command = ''done'' then
                     (case parseInt args of
                        None \<Rightarrow> Inr (True, st, [ProvideValidNumber, DoneUsage])
                      | Some doneNum \<Rightarrow>
                          (case markDone clk doneNum st of
                             Inl e \<Rightarrow> Inl e
                           | Inr (st', m) \<Rightarrow> Inr (True, st', m)))
                   else if command = ''delete'' then
                     (if args = [] then Inr (True, st, [ProvideWhatToDelete, DeleteUsage])
                      else (case deleteTask clk args st of
                              Inl e \<Rightarrow> Inl e
                            | Inr (st', m) \<Rightarrow> Inr (True, st', m)))
                   else if command = ''display'' \<or> command = ''list'' \<or> command = ''show''
                   then (case displayTasks st of
                           Inl e \<Rightarrow> Inl e
                         | Inr (st', m) \<Rightarrow> Inr (True, st', m))
                   else if command = ''archive''
                   then (case showArchive st of
                           Inl e \<Rightarrow> Inl e
                         | Inr (st', m) \<Rightarrow> Inr (True, st', m))
                   else if command = ''help''
                   then (let (st', m) = showHelp st in Inr (True, st', m))
                   else if command = ''location''
                   then (let (st', m) = showLocation st in Inr (True, st', m))
                   else Inr (True, st, [UnknownCommand command, HelpHint])))"

text \<open>
  The command name and the argument string of a line, as lines 254-256 compute them
  (\<open>parts[0].toLowerCase()\<close> and \<open>parts.slice(1).join(" ")\<close>).
\<close>

definition commandOf :: "string \<Rightarrow> string" where
  "commandOf input = toLowerCase (hd (split_ws (trim input)))"

definition argsOf :: "string \<Rightarrow> string" where
  "argsOf input = join_sp (tl (split_ws (trim input)))"

section \<open>Interactive mode and single command mode (lines 319-341)\<close>

text \<open>
  The loop of \<open>interactiveMode\<close> over the lines of the input, each with the clock of its
  command: it ends when \<open>processCommand\<close> returns false or the input does. The prompt is
  written with \<open>process.stdout.write\<close> and is not among the messages.
\<close>

fun commandLoop :: "(clock \<times> string) list \<Rightarrow> fs \<Rightarrow> error + fs \<times> message list" where
  "commandLoop [] st = Inr (st, [])"
| "commandLoop ((clk, line) # rest) st =
     (case processCommand clk line st of
        Inl e \<Rightarrow> Inl e
      | Inr (shouldContinue, st', m) \<Rightarrow>
          if \<not> shouldContinue then Inr (st', m)
          else (case commandLoop rest st' of
                  Inl e \<Rightarrow> Inl e
                | Inr (st'', m') \<Rightarrow> Inr (st'', m @ m')))"

definition interactiveMode :: "(clock \<times> string) list \<Rightarrow> fs \<Rightarrow> error + fs \<times> message list" where
  "interactiveMode input st =
     (let (st0, m0) = showHelp st
      in case commandLoop input st0 of
           Inl e \<Rightarrow> Inl e
         | Inr (st', m) \<Rightarrow> Inr (st', m0 @ m))"

definition singleCommandMode :: "clock \<Rightarrow> string list \<Rightarrow> fs \<Rightarrow> error + fs \<times> message list" where
  "singleCommandMode clk args st =
     (let input = join_sp args
      in case processCommand clk input st of
           Inl e \<Rightarrow> Inl e
         | Inr (shouldContinue, st', m) \<Rightarrow> Inr (st', m))"

section \<open>Notions of the specification\<close>

text \<open>
  The glossary: a pending task is not completed and not hidden, an archived task is
  completed and not hidden.
\<close>

definition isPending :: "Task \<Rightarrow> bool" where
  "isPending t = (\<not> completed t \<and> \<not> hidden t)"

definition isArchived :: "Task \<Rightarrow> bool" where
  "isArchived t = (completed t \<and> \<not> hidden t)"

text \<open>
  Hiding exactly the tasks that satisfy \<open>P\<close>, in one pass over the list: such a task gets
  \<open>hidden = true\<close> and the next clock reading as \<open>hiddenAt\<close>, every other task stays as
  it is. \<open>k\<close> is the number of the next clock reading.
\<close>

fun hideMatching :: "clock \<Rightarrow> (Task \<Rightarrow> bool) \<Rightarrow> nat \<Rightarrow> Task list \<Rightarrow> Task list" where
  "hideMatching clk P k [] = []"
| "hideMatching clk P k (t # ts) =
     (if P t then t\<lparr>hidden := True, hiddenAt := Some (clk k)\<rparr> # hideMatching clk P (Suc k) ts
      else t # hideMatching clk P k ts)"

text \<open>
  What identifies a task record in storage: the fields no command ever assigns after the
  creation of the task.
\<close>

definition recordOf :: "Task \<Rightarrow> int \<times> string \<times> string" where
  "recordOf t = (id_num t, name t, createdAt t)"

text \<open>The storage invariant: ids are unique, and \<open>nextId\<close> is above every id in use.\<close>

definition storageInvariant :: "TaskData \<Rightarrow> bool" where
  "storageInvariant data =
     (distinct (map id_num (tasks data)) \<and> (\<forall>t \<in> set (tasks data). id_num t < nextId data))"

text \<open>
  The data \<open>d'\<close> has the records of \<open>d\<close>: the same ids, names and creation times at the
  same positions, and the same \<open>nextId\<close>. What can differ are the flags and timestamps
  \<open>completed\<close>, \<open>completedAt\<close>, \<open>hidden\<close> and \<open>hiddenAt\<close> of the tasks.
\<close>

definition sameRecords :: "TaskData \<Rightarrow> TaskData \<Rightarrow> bool" where
  "sameRecords d d' = (map recordOf (tasks d') = map recordOf (tasks d) \<and> nextId d' = nextId d)"

text \<open>
  A whole number as the specification means it when an argument has to "parse as an
  integer": an optional sign and decimal digits, nothing else.
\<close>

definition wholeNumber :: "string \<Rightarrow> bool" where
  "wholeNumber s =
     (case s of
        [] \<Rightarrow> False
      | c # r \<Rightarrow> if c = CHR ''-'' \<or> c = CHR ''+'' then r \<noteq> [] \<and> list_all isDigit r
                 else list_all isDigit s)"

text \<open>The serial numbers reported in the messages of a session, in order.\<close>

fun serialNumbers :: "message list \<Rightarrow> nat list" where
  "serialNumbers [] = []"
| "serialNumbers (SerialNumber n # ms) = n # serialNumbers ms"
| "serialNumbers (m # ms) = serialNumbers ms"

text \<open>
  Collapsing white space: every maximal run of white space becomes one space. A white
  space character followed by another one is dropped, the last one of a run is replaced
  by a space.
\<close>

fun collapse_ws :: "string \<Rightarrow> string" where
  "collapse_ws [] = []"
| "collapse_ws [c] = (if isWhite c then '' '' else [c])"
| "collapse_ws (c # d # cs) =
     (if isWhite c
      then (if isWhite d then collapse_ws (d # cs) else CHR '' '' # collapse_ws (d # cs))
      else c # collapse_ws (d # cs))"

text \<open>
  For the proof that \<open>JSON.parse\<close> reads back what \<open>JSON.stringify\<close> wrote: what can
  follow a value in the written text (nothing, a comma or a line break), and a value that
  is parsed back from its text at indentation \<open>ind\<close>, whatever follows of these.
\<close>

definition okRest :: "string \<Rightarrow> bool" where
  "okRest rest = (rest = [] \<or> hd rest = CHR '','' \<or> hd rest = CHR 0x0A)"

definition roundTrips :: "nat \<Rightarrow> json \<Rightarrow> bool" where
  "roundTrips ind v = (\<forall>rest. okRest rest \<longrightarrow> parse Value (pp ind v @ rest) = Some (v, rest))"

section \<open>Sample inputs\<close>

text \<open>
  A clock, stores and a line on which the theorems below are instantiated: \<open>sampleData\<close>
  holds one pending task, one archived task and one hidden task.
\<close>

definition sampleClock :: clock where
  "sampleClock k = ''2025-01-15T12:00:00.000Z''"

definition milk :: Task where
  "milk = \<lparr>id_num = 1, name = ''Buy milk'', completed = False, hidden = False,
            createdAt = ''2025-01-15T10:30:00.000Z'', completedAt = None, hiddenAt = None\<rparr>"

definition rent :: Task where
  "rent = \<lparr>id_num = 2, name = ''Pay rent'', completed = True, hidden = False,
            createdAt = ''2025-01-15T10:31:00.000Z'',
            completedAt = Some ''2025-01-15T11:00:00.000Z'', hiddenAt = None\<rparr>"

definition gone :: Task where
  "gone = \<lparr>id_num = 3, name = ''Call Bob'', completed = False, hidden = True,
            createdAt = ''2025-01-15T10:32:00.000Z'', completedAt = None,
            hiddenAt = Some ''2025-01-15T11:30:00.000Z''\<rparr>"

definition sampleData :: TaskData where
  "sampleData = \<lparr>tasks = [milk, rent, gone], nextId = 4\<rparr>"

definition sampleStore :: fs where
  "sampleStore = \<lparr>dataFile = Content (JSON_stringify sampleData), writable = True\<rparr>"

definition emptyStore :: fs where
  "emptyStore = \<lparr>dataFile = Missing, writable = True\<rparr>"

text \<open>
  A store whose \<open>nextId\<close> is \<open>2 ^ 53\<close>, with no tasks, and the data with one task more
  and the same \<open>nextId\<close>.
\<close>

definition limitData :: TaskData where
  "limitData = \<lparr>tasks = [], nextId = 9007199254740992\<rparr>"

definition limitStore :: fs where
  "limitStore = \<lparr>dataFile = Content (JSON_stringify limitData), writable = True\<rparr>"

definition limitNext :: TaskData where
  "limitNext = \<lparr>tasks =
      [\<lparr>id_num = 9007199254740992, name = ''Water plants'', completed = False,
        hidden = False, createdAt = ''2025-01-15T12:00:00.000Z'', completedAt = None,
        hiddenAt = None\<rparr>],
     nextId = 9007199254740992\<rparr>"

text \<open>
  Two files that hold no \<open>TaskData\<close>: the value \<open>null\<close>, and a task list as the earlier
  version of the program wrote it, with a task that has no property \<open>hidden\<close>.
\<close>

definition nullStore :: fs where
  "nullStore = \<lparr>dataFile = Content ''null'', writable = True\<rparr>"

definition legacyValue :: json where
  "legacyValue = JObject
     [(''tasks'', JArray [JObject
         [(''id'', JNumber 1 0), (''name'', JString ''Buy milk''), (''completed'', JBool False),
          (''createdAt'', JString ''2025-01-15T10:30:00.000Z'')]]),
      (''nextId'', JNumber 2 0)]"

definition legacyStore :: fs where
  "legacyStore = \<lparr>dataFile = Content (pp 0 legacyValue), writable = True\<rparr>"

definition spacedLine :: string where
  "spacedLine = ''  ADD  Buy '' @ [CHR 0x09] @ ''  milk ''"

section \<open>Numbers: where incrementing is exact\<close>

lemma ulp_small: "a < 2 ^ 53 \<Longrightarrow> ulp a = 1"
  by (subst ulp.simps) simp

lemma ulp_next: "2 ^ 53 \<le> a \<Longrightarrow> a < 2 ^ 54 \<Longrightarrow> ulp a = 2"
  by (subst ulp.simps) (simp add: ulp_small)

lemma toDouble_small: "\<bar>x\<bar> < 2 ^ 53 \<Longrightarrow> toDouble x = x"
proof -
  assume "\<bar>x\<bar> < 2 ^ 53"
  then have "nat \<bar>x\<bar> < 2 ^ 53" by simp
  then show ?thesis by (simp add: toDouble_def ulp_small Let_def mult_sgn_abs)
qed

lemma toDouble_limit: "toDouble (2 ^ 53) = 2 ^ 53"
  by (simp add: toDouble_def Let_def ulp_next)

lemma toDouble_above: "toDouble (2 ^ 53 + 1) = 2 ^ 53"
  by (simp add: toDouble_def Let_def ulp_next)

lemma increment_exact:
  assumes "\<bar>n\<bar> < 2 ^ 53"
  shows "increment n = n + 1"
proof -
  from assms have "\<bar>n + 1\<bar> < 2 ^ 53 \<or> n + 1 = 2 ^ 53" by simp linarith
  then show ?thesis
    unfolding increment_def by (auto simp only: toDouble_small toDouble_limit)
qed

lemma increment_limit: "increment (2 ^ 53) = 2 ^ 53"
  by (simp only: increment_def toDouble_above)

lemma increment_limit_numeral: "increment 9007199254740992 = 9007199254740992"
  using increment_limit by simp

section \<open>Strings: lower case, splitting and joining\<close>

lemma lowerChar_plus32: "isUpper c \<Longrightarrow> of_char (lowerChar c) = (of_char c + 32 :: nat)"
proof (cases c)
  case (Char b0 b1 b2 b3 b4 b5 b6 b7)
  assume u: "isUpper c"
  show ?thesis using u unfolding Char
    by (cases b0; cases b1; cases b2; cases b3; cases b4; cases b5; cases b6; cases b7)
       (simp_all add: lowerChar_def isUpper_def)
qed

lemma split_ws_Cons: "\<exists>others. split_ws s = takeWhile (\<lambda>c. \<not> isWhite c) s # others"
  by (subst split_ws.simps) (simp add: Let_def)

lemma split_ws_not_Nil: "split_ws s \<noteq> []"
  using split_ws_Cons [of s] by auto

lemma split_ws_Nil: "split_ws [] = [[]]"
  by (subst split_ws.simps) simp

lemma commandOf_trim: "commandOf input \<noteq> [] \<Longrightarrow> trim input \<noteq> []"
  by (auto simp: commandOf_def split_ws_Nil toLowerCase_def)

lemma parts_of_line:
  assumes "commandOf input \<noteq> []"
  shows "trim input \<noteq> [] \<and> (\<exists>p os. split_ws (trim input) = p # os \<and>
           commandOf input = toLowerCase p \<and> argsOf input = join_sp os)"
proof -
  obtain p os where s: "split_ws (trim input) = p # os"
    using split_ws_not_Nil [of "trim input"] by (cases "split_ws (trim input)") auto
  then show ?thesis using commandOf_trim [OF assms] by (simp add: commandOf_def argsOf_def)
qed

lemma collapse_white:
  "isWhite w \<Longrightarrow> collapse_ws (w # cs) = CHR '' '' # collapse_ws (dropWhile isWhite cs)"
  by (induction cs arbitrary: w) auto

lemma collapse_token:
  "collapse_ws s = takeWhile (\<lambda>c. \<not> isWhite c) s @ collapse_ws (dropWhile (\<lambda>c. \<not> isWhite c) s)"
  by (induction s rule: collapse_ws.induct) auto

lemma join_split_collapse: "join_sp (split_ws s) = collapse_ws s"
proof (induction s rule: split_ws.induct)
  case (1 s)
  define rest where "rest = dropWhile (\<lambda>c. \<not> isWhite c) s"
  show ?case
  proof (cases "rest = []")
    case True
    then have e: "dropWhile (\<lambda>c. \<not> isWhite c) s = []" by (simp add: rest_def)
    have sp: "split_ws s = [takeWhile (\<lambda>c. \<not> isWhite c) s]"
      by (subst split_ws.simps) (simp only: e Let_def refl if_True)
    have "collapse_ws s = takeWhile (\<lambda>c. \<not> isWhite c) s @ collapse_ws []"
      using collapse_token [of s] unfolding e .
    then show ?thesis by (simp add: sp)
  next
    case False
    then obtain w r where wr: "rest = w # r" by (cases rest) auto
    have w: "isWhite w"
      using hd_dropWhile [of "\<lambda>c. \<not> isWhite c" s] False wr by (simp add: rest_def)
    have d: "dropWhile isWhite rest = dropWhile isWhite r" using w wr by simp
    obtain q qs where q: "split_ws (dropWhile isWhite rest) = q # qs"
      using split_ws_not_Nil [of "dropWhile isWhite rest"]
      by (cases "split_ws (dropWhile isWhite rest)") auto
    have ih: "join_sp (split_ws (dropWhile isWhite rest)) = collapse_ws (dropWhile isWhite rest)"
      using "1.IH" [OF refl rest_def False] .
    have "join_sp (split_ws s) =
        takeWhile (\<lambda>c. \<not> isWhite c) s @ CHR '' '' # join_sp (split_ws (dropWhile isWhite rest))"
      using False q by (subst split_ws.simps) (simp add: rest_def [symmetric] Let_def)
    also have "\<dots> = takeWhile (\<lambda>c. \<not> isWhite c) s @ collapse_ws rest"
      using collapse_white [OF w, of r] ih [unfolded d] w by (simp add: d wr)
    finally show ?thesis using collapse_token [of s] by (simp add: rest_def)
  qed
qed

lemma argsOf_collapse:
  "argsOf line = collapse_ws (dropWhile isWhite (dropWhile (\<lambda>c. \<not> isWhite c) (trim line)))"
proof -
  define rest where "rest = dropWhile (\<lambda>c. \<not> isWhite c) (trim line)"
  show ?thesis
  proof (cases "rest = []")
    case True
    then have e: "dropWhile (\<lambda>c. \<not> isWhite c) (trim line) = []" by (simp add: rest_def)
    have "split_ws (trim line) = [takeWhile (\<lambda>c. \<not> isWhite c) (trim line)]"
      by (subst split_ws.simps) (simp only: e Let_def refl if_True)
    then show ?thesis by (simp add: argsOf_def e)
  next
    case False
    then have "split_ws (trim line) =
        takeWhile (\<lambda>c. \<not> isWhite c) (trim line) # split_ws (dropWhile isWhite rest)"
      by (subst split_ws.simps) (simp add: rest_def [symmetric] Let_def)
    then show ?thesis by (simp add: argsOf_def join_split_collapse rest_def)
  qed
qed

section \<open>What \<open>processCommand\<close> does for each command name\<close>

lemma processCommand_add:
  assumes "commandOf input = ''add''"
  shows "processCommand clk input st =
     (if argsOf input = [] then Inr (True, st, [ProvideTaskName, AddUsage])
      else (case addTask clk (argsOf input) st of
              Inl e \<Rightarrow> Inl e
            | Inr (st', m) \<Rightarrow> Inr (True, st', m)))"
proof -
  from assms have "commandOf input \<noteq> []" by simp
  from parts_of_line [OF this] obtain p os where t: "trim input \<noteq> []"
    and s: "split_ws (trim input) = p # os" and c: "commandOf input = toLowerCase p"
    and a: "argsOf input = join_sp os" by blast
  from c assms have c': "toLowerCase p = ''add''" by simp
  show ?thesis using t by (simp add: processCommand_def s c' a)
qed

lemma processCommand_done:
  assumes "commandOf input = ''done''"
  shows "processCommand clk input st =
     (case parseInt (argsOf input) of
        None \<Rightarrow> Inr (True, st, [ProvideValidNumber, DoneUsage])
      | Some doneNum \<Rightarrow>
          (case markDone clk doneNum st of
             Inl e \<Rightarrow> Inl e
           | Inr (st', m) \<Rightarrow> Inr (True, st', m)))"
proof -
  from assms have "commandOf input \<noteq> []" by simp
  from parts_of_line [OF this] obtain p os where t: "trim input \<noteq> []"
    and s: "split_ws (trim input) = p # os" and c: "commandOf input = toLowerCase p"
    and a: "argsOf input = join_sp os" by blast
  from c assms have c': "toLowerCase p = ''done''" by simp
  show ?thesis using t by (simp add: processCommand_def s c' a)
qed

lemma processCommand_delete:
  assumes "commandOf input = ''delete''"
  shows "processCommand clk input st =
     (if argsOf input = [] then Inr (True, st, [ProvideWhatToDelete, DeleteUsage])
      else (case deleteTask clk (argsOf input) st of
              Inl e \<Rightarrow> Inl e
            | Inr (st', m) \<Rightarrow> Inr (True, st', m)))"
proof -
  from assms have "commandOf input \<noteq> []" by simp
  from parts_of_line [OF this] obtain p os where t: "trim input \<noteq> []"
    and s: "split_ws (trim input) = p # os" and c: "commandOf input = toLowerCase p"
    and a: "argsOf input = join_sp os" by blast
  from c assms have c': "toLowerCase p = ''delete''" by simp
  show ?thesis using t by (simp add: processCommand_def s c' a)
qed

lemma processCommand_views:
  assumes "commandOf input \<in> {''display'', ''list'', ''show'', ''archive'', ''help'', ''location''}"
  shows "processCommand clk input st =
     (if commandOf input \<in> {''display'', ''list'', ''show''}
      then (case displayTasks st of Inl e \<Rightarrow> Inl e | Inr (st', m) \<Rightarrow> Inr (True, st', m))
      else if commandOf input = ''archive''
      then (case showArchive st of Inl e \<Rightarrow> Inl e | Inr (st', m) \<Rightarrow> Inr (True, st', m))
      else if commandOf input = ''help'' then Inr (True, st, snd (showHelp st))
      else Inr (True, st, snd (showLocation st)))"
proof -
  from assms have "commandOf input \<noteq> []" by auto
  from parts_of_line [OF this] obtain p os where t: "trim input \<noteq> []"
    and s: "split_ws (trim input) = p # os" and c: "commandOf input = toLowerCase p"
    and a: "argsOf input = join_sp os" by blast
  from c assms have c': "toLowerCase p \<in> {''display'', ''list'', ''show'', ''archive'', ''help'', ''location''}" by simp
  show ?thesis using t c'
    by (auto simp add: processCommand_def s c a showHelp_def showLocation_def)
qed

lemma processCommand_unknown:
  assumes "commandOf input \<noteq> []"
    and "commandOf input \<notin> {''exit'', ''quit'', ''q'', ''add'', ''done'', ''delete'',
           ''display'', ''list'', ''show'', ''archive'', ''help'', ''location''}"
  shows "processCommand clk input st = Inr (True, st, [UnknownCommand (commandOf input), HelpHint])"
proof -
  from parts_of_line [OF assms(1)] obtain p os where t: "trim input \<noteq> []"
    and s: "split_ws (trim input) = p # os" and c: "commandOf input = toLowerCase p"
    and a: "argsOf input = join_sp os" by blast
  show ?thesis using t assms(2) by (simp add: processCommand_def s c a)
qed

lemma processCommand_empty: "trim input = [] \<Longrightarrow> processCommand clk input st = Inr (True, st, [])"
  by (simp add: processCommand_def)

lemma processCommand_exit:
  assumes "commandOf input \<in> {''exit'', ''quit'', ''q''}"
  shows "processCommand clk input st = Inr (False, st, [Goodbye])"
proof -
  from assms have "commandOf input \<noteq> []" by auto
  from parts_of_line [OF this] obtain p os where t: "trim input \<noteq> []"
    and s: "split_ws (trim input) = p # os" and c: "commandOf input = toLowerCase p"
    and a: "argsOf input = join_sp os" by blast
  from c assms have "toLowerCase p \<in> {''exit'', ''quit'', ''q''}" by simp
  then show ?thesis using t by (auto simp add: processCommand_def s)
qed

lemma processCommand_other:
  assumes "trim input \<noteq> []"
    and "commandOf input \<notin> {''exit'', ''quit'', ''q'', ''add'', ''done'', ''delete'',
           ''display'', ''list'', ''show'', ''archive'', ''help'', ''location''}"
  shows "processCommand clk input st = Inr (True, st, [UnknownCommand (commandOf input), HelpHint])"
proof -
  obtain p os where s: "split_ws (trim input) = p # os"
    using split_ws_not_Nil [of "trim input"] by (cases "split_ws (trim input)") auto
  then have c: "commandOf input = toLowerCase p" by (simp add: commandOf_def)
  show ?thesis using assms by (simp add: processCommand_def s c)
qed

lemma displayTasks_data:
  assumes "fst (loadTasks st) = Data data"
  shows "\<exists>m. displayTasks st = Inr (st, m)"
  using assms by (simp add: displayTasks_def taskDataOf_def Let_def case_prod_beta)

lemma showArchive_data:
  assumes "fst (loadTasks st) = Data data"
  shows "\<exists>m. showArchive st = Inr (st, m)"
  using assms by (simp add: showArchive_def taskDataOf_def Let_def case_prod_beta)

lemma processCommand_shows:
  assumes "commandOf line \<in> {''display'', ''list'', ''show'', ''archive'', ''help'', ''location''}"
    and "commandOf line \<in> {''help'', ''location''} \<or> fst (loadTasks st) = Data data"
  shows "\<exists>m. processCommand clk line st = Inr (True, st, m)
     \<and> (commandOf line \<in> {''display'', ''list'', ''show''} \<longrightarrow> displayTasks st = Inr (st, m))
     \<and> (commandOf line = ''archive'' \<longrightarrow> showArchive st = Inr (st, m))
     \<and> (commandOf line = ''help'' \<longrightarrow> showHelp st = (st, m))
     \<and> (commandOf line = ''location'' \<longrightarrow> showLocation st = (st, m))"
proof -
  consider (pending) "commandOf line \<in> {''display'', ''list'', ''show''}"
    | (archive) "commandOf line = ''archive''"
    | (helping) "commandOf line = ''help''"
    | (location) "commandOf line = ''location''"
    using assms(1) by auto
  then show ?thesis
  proof cases
    case pending
    with assms(2) have "fst (loadTasks st) = Data data" by auto
    from displayTasks_data [OF this] obtain m where "displayTasks st = Inr (st, m)" ..
    with pending show ?thesis by (auto simp: processCommand_views [OF assms(1)])
  next
    case archive
    with assms(2) have "fst (loadTasks st) = Data data" by auto
    from showArchive_data [OF this] obtain m where "showArchive st = Inr (st, m)" ..
    with archive show ?thesis by (auto simp: processCommand_views [OF assms(1)])
  next
    case helping
    then show ?thesis
      by (auto simp: processCommand_views [OF assms(1)] showHelp_def)
  next
    case location
    then show ?thesis
      by (auto simp: processCommand_views [OF assms(1)] showLocation_def)
  qed
qed

section \<open>JSON: the written text is read back\<close>

lemma hexValue_hexDigit: "k < 16 \<Longrightarrow> hexValue (hexDigit k) = Some k"
  by (auto simp: hexValue_def hexDigit_def Let_def)

lemma hexValue_zero: "hexValue (CHR ''0'') = Some 0"
  by (simp add: hexValue_def)

lemma parse_chars_quoteChar:
  "parse_chars (quoteChar c @ xs) = map_option (\<lambda>(s, rest). (c # s, rest)) (parse_chars xs)"
proof -
  consider (special) "c \<in> {CHR 0x08, CHR 0x09, CHR 0x0A, CHR 0x0C, CHR 0x0D, CHR 0x22, CHR 0x5C}"
    | (control) "c \<notin> {CHR 0x08, CHR 0x09, CHR 0x0A, CHR 0x0C, CHR 0x0D, CHR 0x22, CHR 0x5C}"
        "(of_char c :: nat) < 32"
    | (plain) "c \<notin> {CHR 0x08, CHR 0x09, CHR 0x0A, CHR 0x0C, CHR 0x0D, CHR 0x22, CHR 0x5C}"
        "\<not> (of_char c :: nat) < 32"
    by blast
  then show ?thesis
  proof cases
    case special
    then show ?thesis by (auto simp: quoteChar_def unescape_def)
  next
    case control
    define n where "n = (of_char c :: nat)"
    have n: "n div 16 < 16" "n mod 16 < 16" using control(2) by (simp_all add: n_def)
    have c: "char_of (16 * (n div 16) + n mod 16) = c" "char_of n = c" by (simp_all add: n_def)
    have q: "quoteChar c = [CHR 0x5C, CHR ''u'', CHR ''0'', CHR ''0'',
        hexDigit (n div 16), hexDigit (n mod 16)]"
      using control by (simp add: quoteChar_def n_def)
    show ?thesis
      by (simp add: q hexValue_zero hexValue_hexDigit n c)
  next
    case plain
    then show ?thesis by (simp add: quoteChar_def)
  qed
qed

lemma parse_chars_quoted:
  "parse_chars (concat (map quoteChar s) @ CHR 0x22 # rest) = Some (s, rest)"
  by (induction s) (simp_all add: parse_chars_quoteChar)

lemma digit_char: "k < 10 \<Longrightarrow> of_char (char_of (48 + k :: nat)) = (48 + k :: nat)"
  by simp

lemma digits_isDigit: "c \<in> set (digits n) \<Longrightarrow> isDigit c"
proof (induction n rule: digits.induct)
  case (1 n)
  then show ?case
    by (subst (asm) digits.simps) (auto simp: isDigit_def split: if_splits)
qed

lemma digits_not_Nil: "digits n \<noteq> []"
  by (subst digits.simps) simp

lemma digitsValue_snoc: "digitsValue (xs @ [c]) = 10 * digitsValue xs + (int (of_char c) - 48)"
  by (simp add: digitsValue_def)

lemma digitsValue_digits: "digitsValue (digits n) = int n"
proof (induction n rule: digits.induct)
  case (1 n)
  show ?case
  proof (cases "n < 10")
    case True
    then show ?thesis by (subst digits.simps) (simp add: digitsValue_def)
  next
    case False
    with 1 have "digitsValue (digits (n div 10)) = int (n div 10)" by simp
    with False show ?thesis
      by (subst digits.simps) (simp add: digitsValue_snoc zdiv_int zmod_int)
  qed
qed

lemma digits_leading_zero: "hd (digits n) = CHR ''0'' \<Longrightarrow> n = 0"
proof (induction n rule: digits.induct)
  case (1 n)
  show ?case
  proof (cases "n < 10")
    case True
    with "1.prems" have "char_of (48 + n) = CHR ''0''" by (subst (asm) digits.simps) simp
    then have "of_char (char_of (48 + n)) = (of_char (CHR ''0'') :: nat)" by simp
    with True show ?thesis by simp
  next
    case False
    with "1.prems" have "hd (digits (n div 10)) = CHR ''0''"
      by (subst (asm) digits.simps) (simp add: digits_not_Nil)
    with 1 False have "n div 10 = 0" by simp
    with False show ?thesis by simp
  qed
qed

lemma digits_zero: "digits 0 = ''0''"
  by (subst digits.simps) (simp add: char_of_eq_iff)

lemma digits_no_leading_zero: "\<not> (hd (digits n) = CHR ''0'' \<and> length (digits n) > 1)"
  using digits_leading_zero [of n] digits_zero by auto

lemma takeWhile_digits:
  assumes "rest = [] \<or> \<not> isDigit (hd rest)"
  shows "takeWhile isDigit (digits n @ rest) = digits n"
    and "dropWhile isDigit (digits n @ rest) = rest"
proof -
  have a: "\<forall>c \<in> set (digits n). isDigit c" by (simp add: digits_isDigit)
  have t: "takeWhile isDigit rest = []" and d: "dropWhile isDigit rest = rest"
    using assms by (cases rest; auto)+
  show "takeWhile isDigit (digits n @ rest) = digits n"
    using a t by (simp add: takeWhile_append2)
  show "dropWhile isDigit (digits n @ rest) = rest"
    using a d by (simp add: dropWhile_append2)
qed

lemma okRest_cases:
  assumes "okRest rest"
  obtains "rest = []" | r where "rest = CHR '','' # r" | r where "rest = CHR 0x0A # r"
  using assms by (cases rest) (auto simp: okRest_def)

lemma parse_number_digits:
  assumes "okRest rest"
  shows "parse_number (digits n @ rest) = Some (JNumber (int n) 0, rest)"
proof -
  have nd: "rest = [] \<or> \<not> isDigit (hd rest)"
    using assms by (auto simp: okRest_def isDigit_def)
  obtain c r where cr: "digits n = c # r" using digits_not_Nil [of n] by (cases "digits n") auto
  have "c \<in> set (digits n)" by (simp add: cr)
  then have "isDigit c" by (rule digits_isDigit)
  then have cm: "c \<noteq> CHR ''-''" by (auto simp: isDigit_def)
  have s1: "parse_sign (digits n @ rest) = (1, digits n @ rest)"
    using cm by (simp add: parse_sign_def cr)
  have f: "parse_frac rest = Some ([], rest)"
    using assms by (cases rest) (auto simp: okRest_def parse_frac_def)
  have e: "parse_exp rest = Some (0, rest)"
    using assms by (cases rest) (auto simp: okRest_def parse_exp_def)
  show ?thesis
    using digits_no_leading_zero [of n]
    by (simp add: parse_number_def s1 takeWhile_digits [OF nd] digits_not_Nil
          digitsValue_digits f e Let_def)
qed

lemma showInt_head:
  "\<exists>c r. showInt i = c # r \<and> (c = CHR ''-'' \<or> isDigit c)"
proof (cases "i < 0")
  case True
  then show ?thesis by (simp add: showInt_def)
next
  case False
  obtain c r where cr: "digits (nat i) = c # r"
    using digits_not_Nil [of "nat i"] by (cases "digits (nat i)") auto
  then have "c \<in> set (digits (nat i))" by simp
  then have "isDigit c" by (rule digits_isDigit)
  with False cr show ?thesis by (simp add: showInt_def)
qed

lemma parse_number_showInt:
  assumes "okRest rest"
  shows "parse_number (showInt i @ rest) = Some (JNumber i 0, rest)"
proof (cases "i < 0")
  case False
  then show ?thesis using parse_number_digits [OF assms, of "nat i"] by (simp add: showInt_def)
next
  case True
  have nd: "rest = [] \<or> \<not> isDigit (hd rest)"
    using assms by (auto simp: okRest_def isDigit_def)
  have f: "parse_frac rest = Some ([], rest)"
    using assms by (cases rest) (auto simp: okRest_def parse_frac_def)
  have e: "parse_exp rest = Some (0, rest)"
    using assms by (cases rest) (auto simp: okRest_def parse_exp_def)
  show ?thesis
    using True digits_no_leading_zero [of "nat (- i)"]
    by (simp add: showInt_def parse_number_def parse_sign_def takeWhile_digits [OF nd]
          digits_not_Nil digitsValue_digits f e Let_def)
qed

lemma skip_ws_nonwhite: "\<not> isJsonWhite c \<Longrightarrow> skip_ws (c # r) = c # r"
  by (simp add: skip_ws_def)

lemma skip_ws_nl: "skip_ws (nl k @ s) = skip_ws s"
  by (simp add: skip_ws_def nl_def isJsonWhite_def dropWhile_append)

lemma skip_ws_space: "skip_ws (CHR '' '' # s) = skip_ws s"
  by (simp add: skip_ws_def isJsonWhite_def)

lemma parse_Value_nl: "parse Value (nl k @ s) = parse Value s"
  by (subst parse.simps, subst (2) parse.simps) (simp add: skip_ws_nl)

lemma parse_Value_space: "parse Value (CHR '' '' # s) = parse Value s"
  by (subst parse.simps, subst (2) parse.simps) (simp add: skip_ws_space)

lemma parse_Elements_nl: "parse (Elements acc) (nl k @ s) = parse (Elements acc) s"
  by (subst parse.simps, subst (2) parse.simps) (simp add: parse_Value_nl)

lemma parse_Members_nl: "parse (Members acc) (nl k @ s) = parse (Members acc) s"
  by (subst parse.simps, subst (2) parse.simps) (simp add: skip_ws_nl)

lemma okRest_simps: "okRest []" "okRest (CHR '','' # r)" "okRest (CHR 0x0A # r)" "okRest (nl k @ r)"
  by (simp_all add: okRest_def nl_def)

lemma roundTrips_string: "roundTrips ind (JString s)"
  unfolding roundTrips_def
  by (subst parse.simps)
     (simp add: quote_def skip_ws_nonwhite isJsonWhite_def parse_chars_quoted)

lemma roundTrips_bool: "roundTrips ind (JBool b)"
  unfolding roundTrips_def
  by (subst parse.simps) (simp add: skip_ws_nonwhite isJsonWhite_def)

lemma roundTrips_number: "roundTrips ind (JNumber i 0)"
  unfolding roundTrips_def
proof (intro allI impI)
  fix rest assume ok: "okRest rest"
  obtain c r where cr: "showInt i = c # r" and c: "c = CHR ''-'' \<or> isDigit c"
    using showInt_head [of i] by blast
  from c have w: "\<not> isJsonWhite c" by (auto simp: isJsonWhite_def isDigit_def)
  from c have n: "c \<noteq> CHR ''{''" "c \<noteq> CHR ''[''" "c \<noteq> CHR 0x22" "c \<noteq> CHR ''t''"
    "c \<noteq> CHR ''f''" "c \<noteq> CHR ''n''"
    by (auto simp: isDigit_def)
  have "parse Value (showInt i @ rest) = parse_number (showInt i @ rest)"
    by (subst parse.simps) (simp add: cr skip_ws_nonwhite [OF w] n)
  with parse_number_showInt [OF ok, of i]
  show "parse Value (pp ind (JNumber i 0) @ rest) = Some (JNumber i 0, rest)" by simp
qed

lemma pp_head:
  "\<exists>c r. pp ind v = c # r \<and> \<not> isJsonWhite c \<and> c \<noteq> CHR '']'' \<and> c \<noteq> CHR ''}''"
proof (cases v)
  case (JNumber m e)
  obtain c r where cr: "showInt m = c # r" and c: "c = CHR ''-'' \<or> isDigit c"
    using showInt_head [of m] by blast
  from c have "\<not> isJsonWhite c \<and> c \<noteq> CHR '']'' \<and> c \<noteq> CHR ''}''"
    by (auto simp: isJsonWhite_def isDigit_def)
  with JNumber cr show ?thesis by simp
qed (simp_all add: isJsonWhite_def quote_def)

lemma joinWith_Cons: "xs \<noteq> [] \<Longrightarrow> joinWith sep (x # xs) = x @ sep @ joinWith sep xs"
  by (cases xs) simp_all

lemma parse_Elements:
  assumes "xs \<noteq> []" and "\<forall>v \<in> set xs. roundTrips (ind + 2) v"
  shows "parse (Elements acc)
           (joinWith (CHR '','' # nl (ind + 2)) (map (pp (ind + 2)) xs) @ nl ind @ CHR '']'' # rest)
         = Some (JArray (acc @ xs), rest)"
  using assms
proof (induction xs arbitrary: acc rule: list_nonempty_induct)
  case (single x)
  then have "parse Value (pp (ind + 2) x @ nl ind @ CHR '']'' # rest)
      = Some (x, nl ind @ CHR '']'' # rest)"
    by (simp add: roundTrips_def okRest_simps)
  then show ?case
    by (subst parse.simps) (simp add: skip_ws_nl skip_ws_nonwhite isJsonWhite_def)
next
  case (cons x xs)
  let ?tail = "joinWith (CHR '','' # nl (ind + 2)) (map (pp (ind + 2)) xs) @ nl ind @ CHR '']'' # rest"
  from cons.prems have "parse Value (pp (ind + 2) x @ CHR '','' # nl (ind + 2) @ ?tail)
      = Some (x, CHR '','' # nl (ind + 2) @ ?tail)"
    by (simp add: roundTrips_def okRest_simps)
  moreover from cons have "parse (Elements (acc @ [x])) ?tail = Some (JArray ((acc @ [x]) @ xs), rest)"
    by simp
  ultimately show ?case
    using cons.hyps
    by (subst parse.simps)
       (simp add: joinWith_Cons skip_ws_nonwhite isJsonWhite_def parse_Elements_nl)
qed

lemma roundTrips_array:
  assumes "\<forall>v \<in> set xs. roundTrips (ind + 2) v"
  shows "roundTrips ind (JArray xs)"
  unfolding roundTrips_def
proof (intro allI impI)
  fix rest assume "okRest rest"
  show "parse Value (pp ind (JArray xs) @ rest) = Some (JArray xs, rest)"
  proof (cases "xs = []")
    case True
    then show ?thesis
      by (subst parse.simps) (simp add: skip_ws_nonwhite isJsonWhite_def)
  next
    case False
    let ?body = "joinWith (CHR '','' # nl (ind + 2)) (map (pp (ind + 2)) xs) @ nl ind @ CHR '']'' # rest"
    obtain x ys where xs: "xs = x # ys" using False by (cases xs) auto
    obtain c r where cr: "pp (ind + 2) x = c # r" "\<not> isJsonWhite c" "c \<noteq> CHR '']''"
      using pp_head [of "ind + 2" x] by blast
    have "\<exists>r'. ?body = c # r'"
      using cr(1) by (cases ys) (simp_all add: xs)
    then obtain r' where b: "?body = c # r'" by blast
    have sk: "skip_ws (nl (ind + 2) @ ?body) = c # r'"
      by (simp only: skip_ws_nl b skip_ws_nonwhite [OF cr(2)])
    have "parse Value (CHR ''['' # nl (ind + 2) @ ?body) = parse (Elements []) (nl (ind + 2) @ ?body)"
      using sk cr(3)
      by (subst parse.simps) (simp add: skip_ws_nonwhite isJsonWhite_def)
    also have "\<dots> = Some (JArray xs, rest)"
      using parse_Elements [OF False assms, of "[]" rest] by (simp add: parse_Elements_nl)
    finally show ?thesis using False by simp
  qed
qed

lemma parse_member:
  assumes "roundTrips ind' v" and "okRest rest'" and "skip_ws rest' = d # r4"
  shows "parse (Members acc) (quote k @ '': '' @ pp ind' v @ rest') =
     (if d = CHR '','' then parse (Members (acc @ [(k, v)])) r4
      else if d = CHR ''}'' then Some (JObject (acc @ [(k, v)]), r4)
      else None)"
proof -
  have v: "parse Value (CHR '' '' # pp ind' v @ rest') = Some (v, rest')"
    using assms(1,2) by (simp add: parse_Value_space roundTrips_def)
  show ?thesis
    by (subst parse.simps)
       (simp add: quote_def skip_ws_nonwhite isJsonWhite_def parse_chars_quoted v assms(3))
qed

lemma parse_Members:
  assumes "ms \<noteq> []" and "\<forall>(k, v) \<in> set ms. roundTrips (ind + 2) v"
  shows "parse (Members acc)
           (joinWith (CHR '','' # nl (ind + 2))
              (map (\<lambda>(k, v). quote k @ '': '' @ pp (ind + 2) v) ms)
            @ nl ind @ CHR ''}'' # rest)
         = Some (JObject (acc @ ms), rest)"
  using assms
proof (induction ms arbitrary: acc rule: list_nonempty_induct)
  case (single m)
  obtain k v where m: "m = (k, v)" by (cases m)
  have s: "skip_ws (nl ind @ CHR ''}'' # rest) = CHR ''}'' # rest"
    by (simp add: skip_ws_nl skip_ws_nonwhite isJsonWhite_def)
  from single m have r: "roundTrips (ind + 2) v" by simp
  from parse_member [OF r okRest_simps(4) s, of acc k]
  show ?case by (simp add: m)
next
  case (cons m ms)
  obtain k v where m: "m = (k, v)" by (cases m)
  let ?tail = "joinWith (CHR '','' # nl (ind + 2))
                 (map (\<lambda>(k, v). quote k @ '': '' @ pp (ind + 2) v) ms)
               @ nl ind @ CHR ''}'' # rest"
  have s: "skip_ws (CHR '','' # nl (ind + 2) @ ?tail) = CHR '','' # nl (ind + 2) @ ?tail"
    by (simp add: skip_ws_nonwhite isJsonWhite_def)
  from cons.prems m have r: "roundTrips (ind + 2) v" by simp
  from cons have ih: "parse (Members (acc @ [(k, v)])) ?tail = Some (JObject ((acc @ [(k, v)]) @ ms), rest)"
    by simp
  from parse_member [OF r okRest_simps(2) s, of acc k] ih cons.hyps
  show ?case by (simp add: m joinWith_Cons parse_Members_nl)
qed

lemma roundTrips_object:
  assumes "\<forall>(k, v) \<in> set ms. roundTrips (ind + 2) v"
  shows "roundTrips ind (JObject ms)"
  unfolding roundTrips_def
proof (intro allI impI)
  fix rest assume "okRest rest"
  show "parse Value (pp ind (JObject ms) @ rest) = Some (JObject ms, rest)"
  proof (cases "ms = []")
    case True
    then show ?thesis
      by (subst parse.simps) (simp add: skip_ws_nonwhite isJsonWhite_def)
  next
    case False
    let ?body = "joinWith (CHR '','' # nl (ind + 2))
                   (map (\<lambda>(k, v). quote k @ '': '' @ pp (ind + 2) v) ms)
                 @ nl ind @ CHR ''}'' # rest"
    obtain k v ys where ms: "ms = (k, v) # ys" using False by (cases ms) auto
    have "\<exists>r'. ?body = CHR 0x22 # r'"
      by (cases ys) (simp_all add: ms quote_def)
    then obtain r' where b: "?body = CHR 0x22 # r'" by blast
    have sk: "skip_ws (nl (ind + 2) @ ?body) = CHR 0x22 # r'"
      by (simp only: skip_ws_nl b) (simp add: skip_ws_nonwhite isJsonWhite_def)
    have "parse Value (CHR ''{'' # nl (ind + 2) @ ?body) = parse (Members []) (nl (ind + 2) @ ?body)"
      using sk
      by (subst parse.simps) (simp add: skip_ws_nonwhite isJsonWhite_def)
    also have "\<dots> = Some (JObject ms, rest)"
      using parse_Members [OF False assms, of "[]" rest] by (simp add: parse_Members_nl)
    finally show ?thesis using False by simp
  qed
qed

lemma roundTrips_task: "roundTrips ind (taskJSON t)"
  unfolding taskJSON_def
  by (rule roundTrips_object)
     (auto simp: roundTrips_string roundTrips_number roundTrips_bool split: option.splits)

lemma roundTrips_data: "roundTrips ind (toJSON d)"
  unfolding toJSON_def
  by (rule roundTrips_object)
     (auto simp: roundTrips_number roundTrips_task intro!: roundTrips_array)

lemma JSON_parse_stringify: "JSON_parse (JSON_stringify d) = Some (toJSON d)"
proof -
  have "parse Value (pp 0 (toJSON d) @ []) = Some (toJSON d, [])"
    using roundTrips_data [of 0 d] by (simp add: roundTrips_def okRest_simps del: append_Nil2)
  then show ?thesis by (simp add: JSON_parse_def JSON_stringify_def skip_ws_def)
qed

lemma asInteger_zero: "asInteger i 0 = Some i"
  by (simp add: asInteger_def)

lemma asTask_taskJSON: "asTask (taskJSON t) = Some t"
  by (cases "completedAt t"; cases "hiddenAt t")
     (simp_all add: asTask_def taskJSON_def property_def optionalString_def asInteger_zero
        onlyKeys_def)

lemma allSome_tasks: "allSome (map (asTask \<circ> taskJSON) ts) = Some ts"
  by (induction ts) (simp_all add: asTask_taskJSON)

lemma asTaskData_toJSON: "asTaskData (toJSON d) = Some d"
  by (simp add: asTaskData_def toJSON_def property_def allSome_tasks asInteger_zero
        onlyKeys_def)

lemma loadTasks_stringify:
  "dataFile st = Content (JSON_stringify d) \<Longrightarrow> loadTasks st = (Data d, [])"
  by (simp add: loadTasks_def JSON_parse_stringify asTaskData_toJSON)

section \<open>Evaluation on concrete inputs\<close>

lemmas string_simps = trim_def isWhite_def split_ws.simps toLowerCase_def lowerChar_def
  isUpper_def parseInt_def isDigit_def digitsValue_def commandOf_def argsOf_def

lemmas sample_simps = sampleClock_def milk_def rent_def gone_def sampleData_def
  sampleStore_def emptyStore_def limitData_def limitStore_def limitNext_def

lemmas command_simps = loadTasks_def saveTasks_def getPendingTasks_def getArchivedTasks_def
  addTask_def markDone_def deleteTask_def displayTasks_def showArchive_def showHelp_def
  showLocation_def emptyData_def taskDataOf_def JSON_parse_stringify asTaskData_toJSON
  increment_exact increment_limit_numeral

section \<open>Storage\<close>

lemma save_then_load:
  "writable st \<Longrightarrow> loadTasks (fst (saveTasks data st)) = (Data data, [])"
  by (simp add: saveTasks_def loadTasks_stringify)

lemma TaskData_update:
  "(d :: TaskData)\<lparr>tasks := a, nextId := b\<rparr> = \<lparr>tasks = a, nextId = b\<rparr>"
  by (cases d) simp

text \<open>
  C7. Saving a \<open>TaskData\<close> value and loading it again returns the same value (all fields of
  all tasks, the order of the tasks and \<open>nextId\<close>) as a \<open>TaskData\<close>, with no warning,
  whatever the file held before: the text that \<open>JSON.stringify\<close> writes is parsed back by
  \<open>JSON.parse\<close> to the value it was written from. The write has to succeed: \<open>saveTasks\<close>
  catches a failed write, reports it and leaves the file as it was.
\<close>

theorem save_load_roundtrip:
  "writable st \<Longrightarrow> loadTasks (fst (saveTasks data st)) = (Data data, [])"
  by (rule save_then_load)

theorem save_load_roundtrip_witness:
  "writable emptyStore
   \<and> loadTasks (fst (saveTasks sampleData emptyStore)) = (Data sampleData, [])"
proof -
  have w: "writable emptyStore" by (simp add: emptyStore_def)
  from save_load_roundtrip [OF w, of sampleData] w show ?thesis by simp
qed

section \<open>The views\<close>

lemma getPendingTasks_filter: "getPendingTasks data = filter isPending (tasks data)"
  by (simp add: getPendingTasks_def isPending_def [abs_def])

lemma getArchivedTasks_filter: "getArchivedTasks data = filter isArchived (tasks data)"
  by (simp add: getArchivedTasks_def isArchived_def [abs_def])

text \<open>
  C1. The pending view is the subsequence of \<open>data.tasks\<close> at the positions whose task has
  \<open>completed = false\<close> and \<open>hidden = false\<close>, the archived view the one at the positions
  whose task has \<open>completed = true\<close> and \<open>hidden = false\<close>, both in the order of
  \<open>data.tasks\<close> (\<open>nths xs I\<close> keeps the elements of \<open>xs\<close> at the positions in \<open>I\<close>, in
  order); a hidden task of \<open>data.tasks\<close> is in neither view.
\<close>

theorem views_are_subsequences:
  "getPendingTasks data =
     nths (tasks data) {i. i < length (tasks data) \<and>
                           \<not> completed (tasks data ! i) \<and> \<not> hidden (tasks data ! i)}
   \<and> getArchivedTasks data =
     nths (tasks data) {i. i < length (tasks data) \<and>
                           completed (tasks data ! i) \<and> \<not> hidden (tasks data ! i)}
   \<and> (\<forall>t \<in> set (tasks data). hidden t \<longrightarrow>
         t \<notin> set (getPendingTasks data) \<and> t \<notin> set (getArchivedTasks data))"
proof (intro conjI)
  show "\<forall>t \<in> set (tasks data). hidden t \<longrightarrow>
         t \<notin> set (getPendingTasks data) \<and> t \<notin> set (getArchivedTasks data)"
    by (simp add: getPendingTasks_def getArchivedTasks_def)
qed (simp_all add: getPendingTasks_def getArchivedTasks_def filter_eq_nths)

theorem views_are_subsequences_witness:
  "getPendingTasks sampleData = nths (tasks sampleData) {0}
   \<and> getArchivedTasks sampleData = nths (tasks sampleData) {1}
   \<and> hidden gone \<and> gone \<in> set (tasks sampleData)
   \<and> gone \<notin> set (getPendingTasks sampleData) \<and> gone \<notin> set (getArchivedTasks sampleData)"
proof -
  have 1: "{i. i < length (tasks sampleData) \<and>
               \<not> completed (tasks sampleData ! i) \<and> \<not> hidden (tasks sampleData ! i)} = {0}"
    by (auto simp: sample_simps less_Suc_eq nth_Cons')
  have 2: "{i. i < length (tasks sampleData) \<and>
               completed (tasks sampleData ! i) \<and> \<not> hidden (tasks sampleData ! i)} = {1}"
    by (auto simp: sample_simps less_Suc_eq nth_Cons')
  have g: "hidden gone" "gone \<in> set (tasks sampleData)" by (simp_all add: sample_simps)
  from views_are_subsequences [of sampleData, unfolded 1 2] g
  show ?thesis by blast
qed

section \<open>The command \<open>add\<close>\<close>

lemma addTask_result:
  assumes "fst (loadTasks st) = Data data"
  shows "addTask clk taskName st =
    (let newTask = \<lparr>id_num = nextId data, name = taskName, completed = False,
                    hidden = False, createdAt = clk 0, completedAt = None, hiddenAt = None\<rparr>;
         data' = \<lparr>tasks = tasks data @ [newTask], nextId = increment (nextId data)\<rparr>
     in Inr (fst (saveTasks data' st),
             snd (loadTasks st) @ snd (saveTasks data' st)
               @ [TaskAdded taskName, SerialNumber (length (getPendingTasks data'))]))"
  using assms
  by (simp add: addTask_def taskDataOf_def Let_def case_prod_beta TaskData_update)

text \<open>
  C2, as the code has it. Let the storage hold a \<open>TaskData\<close> whose \<open>nextId\<close> is below
  \<open>2 ^ 53\<close> in absolute value. A line whose command is \<open>add\<close>, with a non-empty argument
  string, appends to the loaded tasks a new task with the current \<open>nextId\<close> as id,
  increments \<open>nextId\<close> and saves (a later load returns the new data when the write
  succeeds). The serial number it reports is the number of pending tasks after the
  insertion, which is one more than before, and is the position (from 1) of the new task
  in the pending view. The storage is arbitrary otherwise, so this holds for each \<open>add\<close>
  of any sequence of them that stays below the bound.
\<close>

theorem add_reports_pending_serial:
  assumes "commandOf line = ''add''" and "argsOf line \<noteq> []"
    and "fst (loadTasks st) = Data data" and "\<bar>nextId data\<bar> < 2 ^ 53"
  shows "let newTask = \<lparr>id_num = nextId data, name = argsOf line, completed = False,
                        hidden = False, createdAt = clk 0, completedAt = None, hiddenAt = None\<rparr>;
             data' = \<lparr>tasks = tasks data @ [newTask], nextId = nextId data + 1\<rparr>;
             serial = length (getPendingTasks data')
         in processCommand clk line st =
              Inr (True, fst (saveTasks data' st),
                   snd (loadTasks st) @ snd (saveTasks data' st)
                     @ [TaskAdded (argsOf line), SerialNumber serial])
            \<and> (writable st \<longrightarrow> loadTasks (fst (saveTasks data' st)) = (Data data', []))
            \<and> serial = length (getPendingTasks data) + 1
            \<and> getPendingTasks data' = getPendingTasks data @ [newTask]
            \<and> getPendingTasks data' ! (serial - 1) = newTask"
  using assms(2)
  by (simp add: processCommand_add [OF assms(1)] addTask_result [OF assms(3)] Let_def
        save_then_load getPendingTasks_def increment_exact [OF assms(4)])

theorem add_reports_pending_serial_witness:
  "processCommand sampleClock ''add Water plants'' sampleStore =
     Inr (True,
          \<lparr>dataFile = Content (JSON_stringify \<lparr>tasks = [milk, rent, gone,
               \<lparr>id_num = 4, name = ''Water plants'', completed = False, hidden = False,
                createdAt = ''2025-01-15T12:00:00.000Z'', completedAt = None, hiddenAt = None\<rparr>],
             nextId = 5\<rparr>), writable = True\<rparr>,
          [TaskAdded ''Water plants'', SerialNumber 2])"
proof -
  have c: "commandOf ''add Water plants'' = ''add''"
    and a: "argsOf ''add Water plants'' = ''Water plants''"
    by (simp_all add: string_simps)
  have a': "argsOf ''add Water plants'' \<noteq> []" by (simp add: a)
  have l: "loadTasks sampleStore = (Data sampleData, [])"
    by (simp add: loadTasks_stringify sampleStore_def)
  then have d: "fst (loadTasks sampleStore) = Data sampleData" by simp
  have n: "\<bar>nextId sampleData\<bar> < 2 ^ 53" by (simp add: sampleData_def)
  show ?thesis
    using add_reports_pending_serial [OF c a' d n, of sampleClock]
    by (simp add: a l Let_def getPendingTasks_def saveTasks_def)
       (simp add: sample_simps)
qed

text \<open>
  The claim as stated fails for a store whose \<open>nextId\<close> is \<open>2 ^ 53 = 9007199254740992\<close>:
  \<open>add\<close> gives the new task this id and stores the same \<open>nextId\<close> again, since the double
  nearest to \<open>2 ^ 53 + 1\<close> is \<open>2 ^ 53\<close>.
\<close>

theorem add_counterexample:
  "loadTasks limitStore = (Data \<lparr>tasks = [], nextId = 9007199254740992\<rparr>, [])
   \<and> processCommand sampleClock ''add Water plants'' limitStore =
     Inr (True,
          \<lparr>dataFile = Content (JSON_stringify \<lparr>tasks =
              [\<lparr>id_num = 9007199254740992, name = ''Water plants'', completed = False,
                hidden = False, createdAt = ''2025-01-15T12:00:00.000Z'', completedAt = None,
                hiddenAt = None\<rparr>],
             nextId = 9007199254740992\<rparr>), writable = True\<rparr>,
          [TaskAdded ''Water plants'', SerialNumber 1])
   \<and> nextId limitNext \<noteq> nextId limitData + 1"
  by (simp add: processCommand_def string_simps command_simps sample_simps Let_def)

text \<open>
  A session of \<open>add\<close> lines on a writable storage with \<open>p\<close> pending tasks reports the
  serial numbers \<open>p + 1\<close>, \<open>p + 2\<close>, ... and stores one more task for each line.
\<close>

lemma serialNumbers_append: "serialNumbers (xs @ ys) = serialNumbers xs @ serialNumbers ys"
  by (induction xs rule: serialNumbers.induct) simp_all

lemma serialNumbers_load: "serialNumbers (snd (loadTasks st)) = []"
  by (simp add: loadTasks_def split: file_state.splits option.splits)

lemma serialNumbers_save: "serialNumbers (snd (saveTasks d st)) = []"
  by (simp add: saveTasks_def)

lemma writable_save: "writable (fst (saveTasks d st)) = writable st"
  by (simp add: saveTasks_def)

lemma add_sequence_serials:
  assumes "writable st" and "fst (loadTasks st) = Data data"
    and "\<forall>(clk, line) \<in> set input. commandOf line = ''add'' \<and> argsOf line \<noteq> []"
  shows "\<exists>st' msgs data'. commandLoop input st = Inr (st', msgs)
           \<and> serialNumbers msgs
               = map (\<lambda>i. length (getPendingTasks data) + 1 + i) [0..<length input]
           \<and> fst (loadTasks st') = Data data'
           \<and> length (tasks data') = length (tasks data) + length input"
  using assms
proof (induction input arbitrary: st data)
  case Nil
  then show ?case by simp
next
  case (Cons a input)
  obtain clk line where a: "a = (clk, line)" by (cases a)
  from Cons.prems(3) a have c: "commandOf line = ''add''" and n: "argsOf line \<noteq> []" by auto
  define newTask where "newTask = \<lparr>id_num = nextId data, name = argsOf line, completed = False,
      hidden = False, createdAt = clk 0, completedAt = None, hiddenAt = None\<rparr>"
  define data' where "data' = \<lparr>tasks = tasks data @ [newTask], nextId = increment (nextId data)\<rparr>"
  define st1 where "st1 = fst (saveTasks data' st)"
  have p: "processCommand clk line st =
      Inr (True, st1, snd (loadTasks st) @ snd (saveTasks data' st)
             @ [TaskAdded (argsOf line), SerialNumber (length (getPendingTasks data'))])"
    using n
    by (simp add: processCommand_add [OF c] addTask_result [OF Cons.prems(2)] Let_def
          newTask_def data'_def st1_def)
  have l1: "fst (loadTasks st1) = Data data'"
    using Cons.prems(1) by (simp add: st1_def save_then_load)
  have w1: "writable st1" using Cons.prems(1) by (simp add: st1_def writable_save)
  have g: "length (getPendingTasks data') = length (getPendingTasks data) + 1"
    by (simp add: data'_def newTask_def getPendingTasks_def)
  from Cons.prems(3) have "\<forall>(clk, line) \<in> set input. commandOf line = ''add'' \<and> argsOf line \<noteq> []"
    by simp
  from Cons.IH [OF w1 l1 this] obtain st' msgs data''
    where r: "commandLoop input st1 = Inr (st', msgs)"
      and s: "serialNumbers msgs
          = map (\<lambda>i. length (getPendingTasks data') + 1 + i) [0..<length input]"
      and t: "fst (loadTasks st') = Data data''"
        "length (tasks data'') = length (tasks data') + length input"
    by blast
  have m: "map (\<lambda>i. length (getPendingTasks data) + 1 + i) [0..<length (a # input)]
      = (length (getPendingTasks data) + 1)
        # map (\<lambda>i. length (getPendingTasks data') + 1 + i) [0..<length input]"
    by (simp add: g upt_conv_Cons map_Suc_upt [symmetric] del: upt_Suc)
  have "length (tasks data'') = length (tasks data) + length (a # input)"
    using t(2) by (simp add: data'_def)
  with p r s t(1) m show ?case
    by (simp add: a serialNumbers_append serialNumbers_load serialNumbers_save g
          del: upt_Suc)
qed

section \<open>The command \<open>done\<close>\<close>

lemma markDone_out_of_range:
  assumes "fst (loadTasks st) = Data data"
    and "n < 1 \<or> int (length (getPendingTasks data)) < n"
  shows "markDone clk n st = Inr (st, snd (loadTasks st) @ [InvalidTaskNumber])"
  using assms by (auto simp: markDone_def taskDataOf_def Let_def case_prod_beta)

text \<open>
  C3, as the code has it. The argument of \<open>done\<close> is read by \<open>parseInt\<close>: white space,
  an optional sign and the digits that follow; what comes after the digits is not looked
  at. A line whose command is \<open>done\<close> and whose argument string does not start with a
  number in this way (whatever the file holds), or starts with a number that is below 1
  or above the number of pending tasks of the stored \<open>TaskData\<close>, reports invalid input
  (the usage message in the first case, "Invalid task number!" in the second), returns
  \<open>True\<close> and leaves the storage as it was: the same file state, so no task field has
  changed and nothing was written.
\<close>

theorem done_invalid_no_change:
  assumes "commandOf line = ''done''"
    and "parseInt (argsOf line) = None \<or>
         (\<exists>n. parseInt (argsOf line) = Some n \<and> fst (loadTasks st) = Data data \<and>
              (n < 1 \<or> int (length (getPendingTasks data)) < n))"
  shows "processCommand clk line st =
     Inr (True, st,
          case parseInt (argsOf line) of
            None \<Rightarrow> [ProvideValidNumber, DoneUsage]
          | Some n \<Rightarrow> snd (loadTasks st) @ [InvalidTaskNumber])"
  using assms(2)
  by (auto simp: processCommand_done [OF assms(1)] markDone_out_of_range)

text \<open>
  The boundary cases of the specification, on a store with one pending task: \<open>done 0\<close>,
  \<open>done -1\<close> and \<open>done 999\<close>, and an argument that is no number.
\<close>

theorem done_invalid_no_change_witness:
  "processCommand sampleClock ''done 0'' sampleStore = Inr (True, sampleStore, [InvalidTaskNumber])
   \<and> processCommand sampleClock ''done -1'' sampleStore = Inr (True, sampleStore, [InvalidTaskNumber])
   \<and> processCommand sampleClock ''done 999'' sampleStore = Inr (True, sampleStore, [InvalidTaskNumber])
   \<and> processCommand sampleClock ''done soon'' sampleStore
       = Inr (True, sampleStore, [ProvideValidNumber, DoneUsage])"
proof -
  have d: "fst (loadTasks sampleStore) = Data sampleData"
    and l: "snd (loadTasks sampleStore) = []"
    by (simp_all add: loadTasks_stringify sampleStore_def)
  have p: "length (getPendingTasks sampleData) = 1"
    by (simp add: getPendingTasks_def sample_simps)
  have c: "commandOf ''done 0'' = ''done''" "commandOf ''done -1'' = ''done''"
    "commandOf ''done 999'' = ''done''" "commandOf ''done soon'' = ''done''"
    by (simp_all add: string_simps)
  have a: "parseInt (argsOf ''done 0'') = Some 0" "parseInt (argsOf ''done -1'') = Some (-1)"
    "parseInt (argsOf ''done 999'') = Some 999" "parseInt (argsOf ''done soon'') = None"
    by (simp_all add: string_simps)
  show ?thesis
    using done_invalid_no_change [OF c(1), of sampleStore sampleData sampleClock]
      done_invalid_no_change [OF c(2), of sampleStore sampleData sampleClock]
      done_invalid_no_change [OF c(3), of sampleStore sampleData sampleClock]
      done_invalid_no_change [OF c(4), of sampleStore sampleData sampleClock]
    by (simp add: a p l d)
qed

text \<open>
  The claim as stated fails for an argument that is no whole number but starts with one:
  \<open>done 1abc\<close> is not reported as invalid, it completes the first pending task and saves.
\<close>

theorem done_counterexample:
  "\<not> wholeNumber (argsOf ''done 1abc'')
   \<and> processCommand sampleClock ''done 1abc'' sampleStore =
     Inr (True,
          \<lparr>dataFile = Content (JSON_stringify \<lparr>tasks =
             [milk\<lparr>completed := True, completedAt := Some ''2025-01-15T12:00:00.000Z''\<rparr>,
              rent, gone],
             nextId = 4\<rparr>), writable = True\<rparr>,
          [Completed ''Buy milk''])"
  by (simp add: processCommand_def string_simps command_simps sample_simps Let_def
        wholeNumber_def)

section \<open>The command \<open>delete\<close> with a number\<close>

lemma findIndex_None: "findIndex P xs = None \<longleftrightarrow> (\<forall>x \<in> set xs. \<not> P x)"
  by (induction xs) auto

lemma findIndex_Some: "findIndex P xs = Some i \<Longrightarrow> i < length xs \<and> P (xs ! i)"
  by (induction xs arbitrary: i) (auto split: if_splits)

lemma findIndex_member:
  assumes "t \<in> set xs"
  shows "\<exists>i. findIndex (\<lambda>u. id_num u = id_num t) xs = Some i \<and> i < length xs
            \<and> id_num (xs ! i) = id_num t"
proof (cases "findIndex (\<lambda>u. id_num u = id_num t) xs")
  case None
  with assms show ?thesis by (auto simp: findIndex_None)
next
  case (Some i)
  with findIndex_Some [OF Some] show ?thesis by simp
qed

lemma findIndex_distinct:
  assumes "distinct (map id_num xs)" and "i < length xs"
  shows "findIndex (\<lambda>u. id_num u = id_num (xs ! i)) xs = Some i"
proof -
  from assms(2) have "xs ! i \<in> set xs" by simp
  from findIndex_member [OF this] obtain j
    where j: "findIndex (\<lambda>u. id_num u = id_num (xs ! i)) xs = Some j" "j < length xs"
      "id_num (xs ! j) = id_num (xs ! i)" by blast
  from j(2,3) assms(2) have "map id_num xs ! j = map id_num xs ! i" by simp
  with nth_eq_iff_index_eq [OF assms(1), of j i] assms(2) j(2) have "j = i" by simp
  with j(1) show ?thesis by simp
qed

lemma filter_update_remove:
  assumes "distinct xs" and "i < length xs" and "P (xs ! i)" and "\<not> P y"
    and "k < length (filter P xs)" and "filter P xs ! k = xs ! i"
  shows "filter P (xs[i := y]) = take k (filter P xs) @ drop (Suc k) (filter P xs)"
proof -
  define a where "a = filter P (take i xs)"
  define b where "b = filter P (drop (Suc i) xs)"
  have xs: "xs = take i xs @ xs ! i # drop (Suc i) xs"
    using assms(2) by (simp add: id_take_nth_drop)
  have "filter P xs = filter P (take i xs @ xs ! i # drop (Suc i) xs)"
    using xs by simp
  then have f: "filter P xs = a @ xs ! i # b"
    using assms(3) by (simp add: a_def b_def)
  have d: "distinct (filter P xs)" using assms(1) by simp
  have la: "length a < length (filter P xs)" by (simp add: f)
  have "filter P xs ! length a = xs ! i" by (simp add: f)
  with assms(6) have "filter P xs ! k = filter P xs ! length a" by simp
  with nth_eq_iff_index_eq [OF d assms(5) la] have k: "k = length a" by simp
  have "xs[i := y] = take i xs @ y # drop (Suc i) xs"
    using assms(2) by (simp add: upd_conv_take_nth_drop)
  then have "filter P (xs[i := y]) = a @ b"
    using assms(4) by (simp add: a_def b_def)
  then show ?thesis by (simp add: k f)
qed

lemma filter_update_other:
  assumes "i < length xs" and "\<not> Q (xs ! i)" and "\<not> Q y"
  shows "filter Q (xs[i := y]) = filter Q xs"
proof -
  have "filter Q xs = filter Q (take i xs @ xs ! i # drop (Suc i) xs)"
    using assms(1) by (simp add: id_take_nth_drop [symmetric])
  moreover have "xs[i := y] = take i xs @ y # drop (Suc i) xs"
    using assms(1) by (simp add: upd_conv_take_nth_drop)
  ultimately show ?thesis using assms(2,3) by simp
qed

lemma parseInt_words: "parseInt ''all'' = None" "parseInt ''archive'' = None"
  by (simp_all add: string_simps)

lemma argsOf_not_empty: "parseInt (trim (toLowerCase (argsOf line))) = Some n \<Longrightarrow> argsOf line \<noteq> []"
  by (auto simp: string_simps)

lemma deleteTask_number:
  assumes l: "fst (loadTasks st) = Data data"
    and p: "parseInt (trim (toLowerCase input)) = Some n"
    and n: "1 \<le> n" "n \<le> int (length (getPendingTasks data))"
    and d: "distinct (map id_num (tasks data))"
  shows "\<exists>i < length (tasks data).
     tasks data ! i = getPendingTasks data ! (nat n - 1)
     \<and> deleteTask clk input st =
        (let victim = getPendingTasks data ! (nat n - 1);
             data' = data\<lparr>tasks := (tasks data)[i :=
                        victim\<lparr>hidden := True, hiddenAt := Some (clk 0)\<rparr>]\<rparr>
         in Inr (fst (saveTasks data' st),
                 snd (loadTasks st) @ snd (saveTasks data' st) @ [Deleted (name victim)]))"
proof -
  define victim where "victim = getPendingTasks data ! (nat n - 1)"
  from n have k: "nat n - 1 < length (getPendingTasks data)" by simp
  then have "victim \<in> set (getPendingTasks data)" by (simp add: victim_def)
  then have "victim \<in> set (tasks data)" by (simp add: getPendingTasks_def)
  then obtain i where i: "i < length (tasks data)" "tasks data ! i = victim"
    by (auto simp: in_set_conv_nth)
  from findIndex_distinct [OF d i(1)] i(2)
  have f: "findIndex (\<lambda>u. id_num u = id_num victim) (tasks data) = Some i" by simp
  have a: "trim (toLowerCase input) \<noteq> ''all''" "trim (toLowerCase input) \<noteq> ''archive''"
    using p parseInt_words by auto
  have nn: "nat (n - 1) = nat n - 1" using n by simp
  have "deleteTask clk input st =
      Inr (fst (saveTasks (data\<lparr>tasks := (tasks data)[i :=
                   victim\<lparr>hidden := True, hiddenAt := Some (clk 0)\<rparr>]\<rparr>) st),
           snd (loadTasks st)
             @ snd (saveTasks (data\<lparr>tasks := (tasks data)[i :=
                   victim\<lparr>hidden := True, hiddenAt := Some (clk 0)\<rparr>]\<rparr>) st)
             @ [Deleted (name victim)])"
    using n f [unfolded victim_def] i(2) [unfolded victim_def]
    unfolding victim_def
    by (simp add: deleteTask_def taskDataOf_def l a p Let_def case_prod_beta nn)
  with i show ?thesis
    unfolding victim_def by (auto simp: Let_def)
qed

text \<open>
  C4. Let the storage hold a \<open>TaskData\<close> whose ids are pairwise distinct, as the data model
  requires, and let the argument of \<open>delete\<close> read as a number \<open>n\<close> between 1 and the
  number of pending tasks. Then \<open>delete\<close> replaces one entry of \<open>data.tasks\<close>, the task at
  position \<open>n\<close> of the pending view, by itself with \<open>hidden = true\<close> and the clock reading
  as \<open>hiddenAt\<close>, and saves. The pending view loses that one element and keeps all the
  others, in their order and unchanged; the archived view and the length of \<open>data.tasks\<close>
  do not change, and the hidden record is still at its position in \<open>data.tasks\<close>.
\<close>

theorem delete_hides_nth_pending:
  assumes "commandOf line = ''delete''"
    and "fst (loadTasks st) = Data data"
    and "parseInt (trim (toLowerCase (argsOf line))) = Some n"
    and "1 \<le> n" and "n \<le> int (length (getPendingTasks data))"
    and "distinct (map id_num (tasks data))"
  shows "\<exists>i < length (tasks data).
     (let pending = getPendingTasks data;
          victim = pending ! (nat n - 1);
          data' = data\<lparr>tasks := (tasks data)[i :=
                     victim\<lparr>hidden := True, hiddenAt := Some (clk 0)\<rparr>]\<rparr>
      in tasks data ! i = victim
         \<and> processCommand clk line st =
             Inr (True, fst (saveTasks data' st),
                  snd (loadTasks st) @ snd (saveTasks data' st) @ [Deleted (name victim)])
         \<and> (writable st \<longrightarrow> loadTasks (fst (saveTasks data' st)) = (Data data', []))
         \<and> getPendingTasks data' = take (nat n - 1) pending @ drop (nat n) pending
         \<and> length (getPendingTasks data') = length pending - 1
         \<and> getArchivedTasks data' = getArchivedTasks data
         \<and> length (tasks data') = length (tasks data)
         \<and> tasks data' ! i = victim\<lparr>hidden := True, hiddenAt := Some (clk 0)\<rparr>)"
proof -
  define pending where "pending = getPendingTasks data"
  define victim where "victim = pending ! (nat n - 1)"
  define P where "P = (\<lambda>task :: Task. \<not> completed task \<and> \<not> hidden task)"
  define Q where "Q = (\<lambda>task :: Task. completed task \<and> \<not> hidden task)"
  from deleteTask_number [OF assms(2-6), of clk] obtain i
    where i: "i < length (tasks data)" "tasks data ! i = victim"
      and r: "deleteTask clk (argsOf line) st =
        (let data' = data\<lparr>tasks := (tasks data)[i :=
                        victim\<lparr>hidden := True, hiddenAt := Some (clk 0)\<rparr>]\<rparr>
         in Inr (fst (saveTasks data' st),
                 snd (loadTasks st) @ snd (saveTasks data' st) @ [Deleted (name victim)]))"
    unfolding pending_def victim_def Let_def by blast
  define data' where "data' = data\<lparr>tasks := (tasks data)[i :=
                        victim\<lparr>hidden := True, hiddenAt := Some (clk 0)\<rparr>]\<rparr>"
  have pc: "processCommand clk line st =
      Inr (True, fst (saveTasks data' st),
           snd (loadTasks st) @ snd (saveTasks data' st) @ [Deleted (name victim)])"
    using argsOf_not_empty [OF assms(3)]
    by (simp add: processCommand_delete [OF assms(1)] r Let_def data'_def)
  have k: "nat n - 1 < length pending"
    using assms(4,5) by (simp add: pending_def)
  have fp: "pending = filter P (tasks data)"
    by (simp add: pending_def getPendingTasks_def P_def)
  from k have "victim \<in> set pending" by (simp add: victim_def)
  then have pv: "P victim" by (simp add: fp)
  have npv: "\<not> P (victim\<lparr>hidden := True, hiddenAt := Some (clk 0)\<rparr>)" by (simp add: P_def)
  have dx: "distinct (tasks data)"
    using assms(6) by (simp add: distinct_map)
  have "filter P ((tasks data)[i := victim\<lparr>hidden := True, hiddenAt := Some (clk 0)\<rparr>])
      = take (nat n - 1) (filter P (tasks data)) @ drop (Suc (nat n - 1)) (filter P (tasks data))"
    using filter_update_remove [of "tasks data" i P
        "victim\<lparr>hidden := True, hiddenAt := Some (clk 0)\<rparr>" "nat n - 1"]
      dx i npv pv k
    by (simp add: fp [symmetric] victim_def)
  moreover have "Suc (nat n - 1) = nat n" using assms(4) by simp
  ultimately have g: "getPendingTasks data' = take (nat n - 1) pending @ drop (nat n) pending"
    by (simp add: data'_def getPendingTasks_def P_def [symmetric] fp)
  have lg: "length (getPendingTasks data') = length pending - 1"
    using k assms(4) by (simp add: g)
  have nq: "\<not> Q victim" using pv by (auto simp: P_def Q_def)
  have "filter Q ((tasks data)[i := victim\<lparr>hidden := True, hiddenAt := Some (clk 0)\<rparr>])
      = filter Q (tasks data)"
    using filter_update_other [OF i(1), of Q] nq i(2) by (simp add: Q_def)
  then have ga: "getArchivedTasks data' = getArchivedTasks data"
    by (simp add: data'_def getArchivedTasks_def Q_def)
  have w: "writable st \<longrightarrow> loadTasks (fst (saveTasks data' st)) = (Data data', [])"
    by (simp add: save_then_load)
  have l: "length (tasks data') = length (tasks data)"
    "tasks data' ! i = victim\<lparr>hidden := True, hiddenAt := Some (clk 0)\<rparr>"
    using i(1) by (simp_all add: data'_def)
  from i pc w g lg ga l show ?thesis
    unfolding Let_def data'_def victim_def pending_def
    by (intro exI [of _ i] conjI) assumption+
qed

theorem delete_hides_nth_pending_witness:
  "processCommand sampleClock ''delete 1'' sampleStore =
     Inr (True,
          \<lparr>dataFile = Content (JSON_stringify \<lparr>tasks =
             [milk\<lparr>hidden := True, hiddenAt := Some ''2025-01-15T12:00:00.000Z''\<rparr>, rent, gone],
             nextId = 4\<rparr>), writable = True\<rparr>,
          [Deleted ''Buy milk''])"
proof -
  have c: "commandOf ''delete 1'' = ''delete''"
    and p: "parseInt (trim (toLowerCase (argsOf ''delete 1''))) = Some 1"
    by (simp_all add: string_simps)
  have l: "loadTasks sampleStore = (Data sampleData, [])"
    by (simp add: loadTasks_stringify sampleStore_def)
  then have f: "fst (loadTasks sampleStore) = Data sampleData" by simp
  have g: "getPendingTasks sampleData = [milk]"
    by (simp add: getPendingTasks_def sample_simps)
  have n: "(1::int) \<le> 1" "1 \<le> int (length (getPendingTasks sampleData))"
    by (simp_all add: g)
  have d: "distinct (map id_num (tasks sampleData))"
    by (simp add: sampleData_def milk_def rent_def gone_def)
  from delete_hides_nth_pending [OF c f p n d, of sampleClock] obtain i
    where i: "tasks sampleData ! i = milk"  "i < length (tasks sampleData)"
      and r: "processCommand sampleClock ''delete 1'' sampleStore =
        Inr (True,
             fst (saveTasks (sampleData\<lparr>tasks := (tasks sampleData)[i :=
                    milk\<lparr>hidden := True, hiddenAt := Some (sampleClock 0)\<rparr>]\<rparr>) sampleStore),
             snd (saveTasks (sampleData\<lparr>tasks := (tasks sampleData)[i :=
                    milk\<lparr>hidden := True, hiddenAt := Some (sampleClock 0)\<rparr>]\<rparr>) sampleStore)
               @ [Deleted (name milk)])"
    by (auto simp: Let_def l g)
  from i have "i = 0"
    by (auto simp: sampleData_def less_Suc_eq nth_Cons' milk_def rent_def gone_def
          split: if_splits)
  with r show ?thesis
    by (simp add: saveTasks_def sampleStore_def sampleData_def sampleClock_def milk_def)
qed

section \<open>The commands \<open>delete all\<close> and \<open>delete archive\<close>\<close>

lemma hideEach_pass:
  assumes "distinct (map id_num (ys @ xs))"
  shows "hideEach clk (filter P xs) (d\<lparr>tasks := ys @ xs\<rparr>) k =
           Inr (d\<lparr>tasks := ys @ hideMatching clk P k xs\<rparr>, k + length (filter P xs))"
  using assms
proof (induction xs arbitrary: ys k)
  case Nil
  then show ?case by simp
next
  case (Cons t ts)
  show ?case
  proof (cases "P t")
    case False
    from Cons.prems have "distinct (map id_num ((ys @ [t]) @ ts))" by simp
    from Cons.IH [OF this, of k] False show ?thesis by simp
  next
    case True
    let ?t' = "t\<lparr>hidden := True, hiddenAt := Some (clk k)\<rparr>"
    have "length ys < length (ys @ t # ts)" by simp
    from findIndex_distinct [OF Cons.prems this]
    have f: "findIndex (\<lambda>u. id_num u = id_num t) (ys @ t # ts) = Some (length ys)" by simp
    from Cons.prems have "distinct (map id_num ((ys @ [?t']) @ ts))" by simp
    from Cons.IH [OF this, of "Suc k"] True f show ?thesis by simp
  qed
qed

lemma hideEach_view:
  assumes "distinct (map id_num (tasks data))"
  shows "hideEach clk (filter P (tasks data)) data 0 =
           Inr (data\<lparr>tasks := hideMatching clk P 0 (tasks data)\<rparr>, length (filter P (tasks data)))"
  using hideEach_pass [of "[]" "tasks data" clk P data 0] assms by simp

lemma length_hideMatching: "length (hideMatching clk P k xs) = length xs"
  by (induction xs arbitrary: k) auto

lemma hideMatching_nth:
  "i < length xs \<Longrightarrow>
   hideMatching clk P k xs ! i =
     (if P (xs ! i)
      then (xs ! i)\<lparr>hidden := True, hiddenAt := Some (clk (k + length (filter P (take i xs))))\<rparr>
      else xs ! i)"
proof (induction xs arbitrary: k i)
  case Nil
  then show ?case by simp
next
  case (Cons t ts)
  then show ?case by (cases i) auto
qed

lemma hideMatching_pending:
  "filter isPending (hideMatching clk isPending k xs) = []"
  "filter isArchived (hideMatching clk isPending k xs) = filter isArchived xs"
  "length (filter hidden (hideMatching clk isPending k xs))
     = length (filter hidden xs) + length (filter isPending xs)"
  by (induction xs arbitrary: k; auto simp: isPending_def isArchived_def)+

lemma hideMatching_archived:
  "filter isArchived (hideMatching clk isArchived k xs) = []"
  "filter isPending (hideMatching clk isArchived k xs) = filter isPending xs"
  "length (filter hidden (hideMatching clk isArchived k xs))
     = length (filter hidden xs) + length (filter isArchived xs)"
  by (induction xs arbitrary: k; auto simp: isPending_def isArchived_def)+

lemma deleteTask_all:
  assumes "trim (toLowerCase input) = ''all''"
    and "fst (loadTasks st) = Data data"
    and "distinct (map id_num (tasks data))"
  shows "deleteTask clk input st =
    (let data' = data\<lparr>tasks := hideMatching clk isPending 0 (tasks data)\<rparr>
     in if length (getPendingTasks data) = 0
        then Inr (st, snd (loadTasks st) @ [NoPendingToDelete])
        else Inr (fst (saveTasks data' st),
                  snd (loadTasks st) @ snd (saveTasks data' st)
                    @ [DeletedPending (length (getPendingTasks data))]))"
  using assms(3)
  by (simp add: deleteTask_def taskDataOf_def assms(1,2) Let_def case_prod_beta
        getPendingTasks_filter hideEach_view)

lemma deleteTask_archive:
  assumes "trim (toLowerCase input) = ''archive''"
    and "fst (loadTasks st) = Data data"
    and "distinct (map id_num (tasks data))"
  shows "deleteTask clk input st =
    (let data' = data\<lparr>tasks := hideMatching clk isArchived 0 (tasks data)\<rparr>
     in if length (getArchivedTasks data) = 0
        then Inr (st, snd (loadTasks st) @ [NoArchivedToDelete])
        else Inr (fst (saveTasks data' st),
                  snd (loadTasks st) @ snd (saveTasks data' st)
                    @ [DeletedArchived (length (getArchivedTasks data))]))"
  using assms(3)
  by (simp add: deleteTask_def taskDataOf_def assms(1,2) Let_def case_prod_beta
        getArchivedTasks_filter hideEach_view)

lemma deleteTask_all_none:
  assumes "trim (toLowerCase input) = ''all''"
    and "fst (loadTasks st) = Data data" and "getPendingTasks data = []"
  shows "deleteTask clk input st = Inr (st, snd (loadTasks st) @ [NoPendingToDelete])"
  by (simp add: deleteTask_def taskDataOf_def assms Let_def case_prod_beta)

lemma deleteTask_archive_none:
  assumes "trim (toLowerCase input) = ''archive''"
    and "fst (loadTasks st) = Data data" and "getArchivedTasks data = []"
  shows "deleteTask clk input st = Inr (st, snd (loadTasks st) @ [NoArchivedToDelete])"
  by (simp add: deleteTask_def taskDataOf_def assms Let_def case_prod_beta)

lemma bulk_args_not_empty:
  "trim (toLowerCase (argsOf line)) = ''all'' \<Longrightarrow> argsOf line \<noteq> []"
  "trim (toLowerCase (argsOf line)) = ''archive'' \<Longrightarrow> argsOf line \<noteq> []"
  by (auto simp: trim_def toLowerCase_def)

text \<open>
  C5, as the code has it. Let the storage hold a \<open>TaskData\<close> whose ids are pairwise
  distinct, as the data model requires, and let \<open>N\<close> be the number of pending tasks. For
  \<open>N > 0\<close>, \<open>delete all\<close> hides exactly the pending tasks (\<open>hideMatching\<close>: each gets
  \<open>hidden = true\<close> and a clock reading, every other task stays as it is), saves and
  reports the count \<open>N\<close>: \<open>N\<close> more tasks are hidden than before, the pending view is empty
  and the archived view is as before. For \<open>N = 0\<close> it reports that there are no pending
  tasks to delete, with no count, and writes nothing; this is also what a second
  \<open>delete all\<close> right after a first one reports. \<open>delete archive\<close> does the same with the
  archived tasks.
\<close>

theorem delete_all_hides_the_view:
  assumes "commandOf line = ''delete''"
    and "fst (loadTasks st) = Data data"
    and "distinct (map id_num (tasks data))"
  shows
   "(trim (toLowerCase (argsOf line)) = ''all'' \<longrightarrow>
       (let N = length (getPendingTasks data);
            data' = data\<lparr>tasks := hideMatching clk isPending 0 (tasks data)\<rparr>;
            st' = fst (saveTasks data' st)
        in if N = 0
           then processCommand clk line st =
                  Inr (True, st, snd (loadTasks st) @ [NoPendingToDelete])
           else processCommand clk line st =
                  Inr (True, st',
                       snd (loadTasks st) @ snd (saveTasks data' st) @ [DeletedPending N])
              \<and> length (filter hidden (tasks data')) = length (filter hidden (tasks data)) + N
              \<and> getPendingTasks data' = []
              \<and> getArchivedTasks data' = getArchivedTasks data
              \<and> (writable st \<longrightarrow>
                   processCommand clk' line st' = Inr (True, st', [NoPendingToDelete]))))
    \<and> (trim (toLowerCase (argsOf line)) = ''archive'' \<longrightarrow>
       (let N = length (getArchivedTasks data);
            data' = data\<lparr>tasks := hideMatching clk isArchived 0 (tasks data)\<rparr>;
            st' = fst (saveTasks data' st)
        in if N = 0
           then processCommand clk line st =
                  Inr (True, st, snd (loadTasks st) @ [NoArchivedToDelete])
           else processCommand clk line st =
                  Inr (True, st',
                       snd (loadTasks st) @ snd (saveTasks data' st) @ [DeletedArchived N])
              \<and> length (filter hidden (tasks data')) = length (filter hidden (tasks data)) + N
              \<and> getArchivedTasks data' = []
              \<and> getPendingTasks data' = getPendingTasks data
              \<and> (writable st \<longrightarrow>
                   processCommand clk' line st' = Inr (True, st', [NoArchivedToDelete]))))"
proof (intro conjI impI)
  assume a: "trim (toLowerCase (argsOf line)) = ''all''"
  define data' where "data' = data\<lparr>tasks := hideMatching clk isPending 0 (tasks data)\<rparr>"
  note ne = bulk_args_not_empty(1) [OF a]
  have pc: "processCommand clk line st =
      (if length (getPendingTasks data) = 0
       then Inr (True, st, snd (loadTasks st) @ [NoPendingToDelete])
       else Inr (True, fst (saveTasks data' st),
                 snd (loadTasks st) @ snd (saveTasks data' st)
                   @ [DeletedPending (length (getPendingTasks data))]))"
    using ne
    by (simp add: processCommand_delete [OF assms(1)] deleteTask_all [OF a assms(2,3)]
          Let_def data'_def)
  have h: "length (filter hidden (tasks data'))
      = length (filter hidden (tasks data)) + length (getPendingTasks data)"
    and g: "getPendingTasks data' = []"
    and ga: "getArchivedTasks data' = getArchivedTasks data"
    by (simp_all add: data'_def getPendingTasks_filter getArchivedTasks_filter
          hideMatching_pending)
  have again: "writable st \<longrightarrow>
      processCommand clk' line (fst (saveTasks data' st))
        = Inr (True, fst (saveTasks data' st), [NoPendingToDelete])"
  proof
    assume w: "writable st"
    have l: "loadTasks (fst (saveTasks data' st)) = (Data data', [])"
      using w by (rule save_then_load)
    then have f: "fst (loadTasks (fst (saveTasks data' st))) = Data data'" by simp
    have "deleteTask clk' (argsOf line) (fst (saveTasks data' st))
        = Inr (fst (saveTasks data' st), [NoPendingToDelete])"
      using deleteTask_all_none [OF a f g, of clk'] by (simp add: l)
    then show "processCommand clk' line (fst (saveTasks data' st))
        = Inr (True, fst (saveTasks data' st), [NoPendingToDelete])"
      using ne by (simp add: processCommand_delete [OF assms(1)])
  qed
  from pc h g ga again
  show "let N = length (getPendingTasks data);
            data' = data\<lparr>tasks := hideMatching clk isPending 0 (tasks data)\<rparr>;
            st' = fst (saveTasks data' st)
        in if N = 0
           then processCommand clk line st =
                  Inr (True, st, snd (loadTasks st) @ [NoPendingToDelete])
           else processCommand clk line st =
                  Inr (True, st',
                       snd (loadTasks st) @ snd (saveTasks data' st) @ [DeletedPending N])
              \<and> length (filter hidden (tasks data')) = length (filter hidden (tasks data)) + N
              \<and> getPendingTasks data' = []
              \<and> getArchivedTasks data' = getArchivedTasks data
              \<and> (writable st \<longrightarrow>
                   processCommand clk' line st' = Inr (True, st', [NoPendingToDelete]))"
    unfolding Let_def data'_def by simp
next
  assume a: "trim (toLowerCase (argsOf line)) = ''archive''"
  define data' where "data' = data\<lparr>tasks := hideMatching clk isArchived 0 (tasks data)\<rparr>"
  note ne = bulk_args_not_empty(2) [OF a]
  have pc: "processCommand clk line st =
      (if length (getArchivedTasks data) = 0
       then Inr (True, st, snd (loadTasks st) @ [NoArchivedToDelete])
       else Inr (True, fst (saveTasks data' st),
                 snd (loadTasks st) @ snd (saveTasks data' st)
                   @ [DeletedArchived (length (getArchivedTasks data))]))"
    using ne
    by (simp add: processCommand_delete [OF assms(1)] deleteTask_archive [OF a assms(2,3)]
          Let_def data'_def)
  have h: "length (filter hidden (tasks data'))
      = length (filter hidden (tasks data)) + length (getArchivedTasks data)"
    and g: "getArchivedTasks data' = []"
    and gp: "getPendingTasks data' = getPendingTasks data"
    by (simp_all add: data'_def getPendingTasks_filter getArchivedTasks_filter
          hideMatching_archived)
  have again: "writable st \<longrightarrow>
      processCommand clk' line (fst (saveTasks data' st))
        = Inr (True, fst (saveTasks data' st), [NoArchivedToDelete])"
  proof
    assume w: "writable st"
    have l: "loadTasks (fst (saveTasks data' st)) = (Data data', [])"
      using w by (rule save_then_load)
    then have f: "fst (loadTasks (fst (saveTasks data' st))) = Data data'" by simp
    have "deleteTask clk' (argsOf line) (fst (saveTasks data' st))
        = Inr (fst (saveTasks data' st), [NoArchivedToDelete])"
      using deleteTask_archive_none [OF a f g, of clk'] by (simp add: l)
    then show "processCommand clk' line (fst (saveTasks data' st))
        = Inr (True, fst (saveTasks data' st), [NoArchivedToDelete])"
      using ne by (simp add: processCommand_delete [OF assms(1)])
  qed
  from pc h g gp again
  show "let N = length (getArchivedTasks data);
            data' = data\<lparr>tasks := hideMatching clk isArchived 0 (tasks data)\<rparr>;
            st' = fst (saveTasks data' st)
        in if N = 0
           then processCommand clk line st =
                  Inr (True, st, snd (loadTasks st) @ [NoArchivedToDelete])
           else processCommand clk line st =
                  Inr (True, st',
                       snd (loadTasks st) @ snd (saveTasks data' st) @ [DeletedArchived N])
              \<and> length (filter hidden (tasks data')) = length (filter hidden (tasks data)) + N
              \<and> getArchivedTasks data' = []
              \<and> getPendingTasks data' = getPendingTasks data
              \<and> (writable st \<longrightarrow>
                   processCommand clk' line st' = Inr (True, st', [NoArchivedToDelete]))"
    unfolding Let_def data'_def by simp
qed

theorem delete_all_hides_the_view_witness:
  "processCommand sampleClock ''delete all'' sampleStore =
     Inr (True,
          \<lparr>dataFile = Content (JSON_stringify \<lparr>tasks =
             [milk\<lparr>hidden := True, hiddenAt := Some ''2025-01-15T12:00:00.000Z''\<rparr>, rent, gone],
             nextId = 4\<rparr>), writable = True\<rparr>,
          [DeletedPending 1])
   \<and> processCommand sampleClock ''delete all''
        \<lparr>dataFile = Content (JSON_stringify \<lparr>tasks =
             [milk\<lparr>hidden := True, hiddenAt := Some ''2025-01-15T12:00:00.000Z''\<rparr>, rent, gone],
             nextId = 4\<rparr>), writable = True\<rparr> =
     Inr (True,
          \<lparr>dataFile = Content (JSON_stringify \<lparr>tasks =
             [milk\<lparr>hidden := True, hiddenAt := Some ''2025-01-15T12:00:00.000Z''\<rparr>, rent, gone],
             nextId = 4\<rparr>), writable = True\<rparr>,
          [NoPendingToDelete])
   \<and> processCommand sampleClock ''delete archive'' sampleStore =
     Inr (True,
          \<lparr>dataFile = Content (JSON_stringify \<lparr>tasks =
             [milk, rent\<lparr>hidden := True, hiddenAt := Some ''2025-01-15T12:00:00.000Z''\<rparr>, gone],
             nextId = 4\<rparr>), writable = True\<rparr>,
          [DeletedArchived 1])"
proof -
  have c: "commandOf ''delete all'' = ''delete''" "commandOf ''delete archive'' = ''delete''"
    and a: "trim (toLowerCase (argsOf ''delete all'')) = ''all''"
      "trim (toLowerCase (argsOf ''delete archive'')) = ''archive''"
    by (simp_all add: string_simps)
  have l: "loadTasks sampleStore = (Data sampleData, [])"
    by (simp add: loadTasks_stringify sampleStore_def)
  then have f: "fst (loadTasks sampleStore) = Data sampleData" by simp
  have d: "distinct (map id_num (tasks sampleData))"
    by (simp add: sampleData_def milk_def rent_def gone_def)
  show ?thesis
    using delete_all_hides_the_view [OF c(1) f d, of sampleClock sampleClock]
      delete_all_hides_the_view [OF c(2) f d, of sampleClock sampleClock]
    by (simp add: a command_simps sample_simps isPending_def isArchived_def Let_def)
qed

text \<open>
  The claim as stated fails when nothing is pending: the report is "No pending tasks to
  delete.", not a count of 0.
\<close>

theorem delete_all_counterexample:
  "processCommand sampleClock ''delete all'' emptyStore
     = Inr (True, emptyStore, [NoPendingToDelete])
   \<and> processCommand sampleClock ''delete all'' emptyStore
     \<noteq> Inr (True, emptyStore, [DeletedPending 0])"
  by (simp add: processCommand_def string_simps command_simps sample_simps)

section \<open>The storage invariant\<close>

lemma recordOf_completed:
  "map recordOf (xs[i := (xs ! i)\<lparr>completed := c, completedAt := a\<rparr>]) = map recordOf xs"
proof (cases "i < length xs")
  case True
  then show ?thesis by (intro nth_equalityI) (auto simp: nth_list_update recordOf_def)
next
  case False
  then show ?thesis by (simp add: list_update_beyond)
qed

lemma recordOf_hidden:
  "map recordOf (xs[i := (xs ! i)\<lparr>hidden := h, hiddenAt := b\<rparr>]) = map recordOf xs"
proof (cases "i < length xs")
  case True
  then show ?thesis by (intro nth_equalityI) (auto simp: nth_list_update recordOf_def)
next
  case False
  then show ?thesis by (simp add: list_update_beyond)
qed

lemma id_num_recordOf: "map id_num xs = map fst (map recordOf xs)"
  by (simp add: recordOf_def)

lemma storageInvariant_ids:
  "storageInvariant d =
     (distinct (map id_num (tasks d)) \<and> (\<forall>x \<in> set (map id_num (tasks d)). x < nextId d))"
  by (auto simp: storageInvariant_def)

lemma storageInvariant_cong:
  assumes "map recordOf (tasks d') = map recordOf (tasks d)" and "nextId d' = nextId d"
  shows "storageInvariant d' = storageInvariant d"
  unfolding storageInvariant_ids id_num_recordOf assms ..

lemma storageInvariant_add:
  assumes "storageInvariant d" and "id_num t = nextId d" and "\<bar>nextId d\<bar> < 2 ^ 53"
  shows "storageInvariant \<lparr>tasks = tasks d @ [t], nextId = increment (nextId d)\<rparr>"
  using assms(1,2) by (fastforce simp: storageInvariant_def increment_exact [OF assms(3)])

lemma sameRecords_refl: "sameRecords d d"
  by (simp add: sameRecords_def)

lemma sameRecords_trans: "sameRecords a b \<Longrightarrow> sameRecords b c \<Longrightarrow> sameRecords a c"
  by (simp add: sameRecords_def)

lemma sameRecords_invariant:
  "sameRecords d d' \<Longrightarrow> storageInvariant d' = storageInvariant d"
  by (rule storageInvariant_cong) (simp_all add: sameRecords_def)

lemma load_after_save:
  assumes "fst (loadTasks st) = Data data"
  shows "fst (loadTasks (fst (saveTasks d' st))) = Data (if writable st then d' else data)"
  using assms by (simp add: saveTasks_def loadTasks_stringify)

lemma save_sameRecords:
  assumes "fst (loadTasks st) = Data data" and "sameRecords data d'"
  shows "\<exists>data'. fst (loadTasks (fst (saveTasks d' st))) = Data data' \<and> sameRecords data data'"
  using load_after_save [OF assms(1), of d'] assms(2) by (auto simp: sameRecords_refl)

lemma markDone_effect:
  assumes l: "fst (loadTasks st) = Data data"
  shows "\<exists>st' m data'. markDone clk n st = Inr (st', m)
           \<and> fst (loadTasks st') = Data data' \<and> sameRecords data data'"
proof (cases "n < 1 \<or> int (length (getPendingTasks data)) < n")
  case True
  from markDone_out_of_range [OF l True] l show ?thesis
    by (auto simp: sameRecords_refl)
next
  case False
  define victim where "victim = getPendingTasks data ! nat (n - 1)"
  from False have "nat (n - 1) < length (getPendingTasks data)" by linarith
  then have "victim \<in> set (getPendingTasks data)" by (simp add: victim_def)
  then have "victim \<in> set (tasks data)" by (simp add: getPendingTasks_def)
  from findIndex_member [OF this] obtain i
    where i: "findIndex (\<lambda>u. id_num u = id_num victim) (tasks data) = Some i" by blast
  let ?d = "data\<lparr>tasks := (tasks data)[i :=
              (tasks data ! i)\<lparr>completed := True, completedAt := Some (clk 0)\<rparr>]\<rparr>"
  have "markDone clk n st =
      Inr (fst (saveTasks ?d st),
           snd (loadTasks st) @ snd (saveTasks ?d st) @ [Completed (name victim)])"
    using False i [unfolded victim_def] unfolding victim_def
    by (simp add: markDone_def taskDataOf_def l Let_def case_prod_beta)
  moreover have "sameRecords data ?d"
    by (simp add: sameRecords_def recordOf_completed)
  ultimately show ?thesis using save_sameRecords [OF l, of ?d] by auto
qed

lemma hideEach_total:
  assumes "id_num ` set ts \<subseteq> id_num ` set (tasks d)"
  shows "\<exists>d' c'. hideEach clk ts d c = Inr (d', c') \<and> sameRecords d d'"
  using assms
proof (induction ts arbitrary: d c)
  case Nil
  then show ?case by (simp add: sameRecords_refl)
next
  case (Cons t ts)
  from Cons.prems obtain u where "u \<in> set (tasks d)" "id_num u = id_num t" by auto
  then have "findIndex (\<lambda>u. id_num u = id_num t) (tasks d) \<noteq> None"
    by (auto simp: findIndex_None)
  then obtain i where i: "findIndex (\<lambda>u. id_num u = id_num t) (tasks d) = Some i" by auto
  let ?d = "d\<lparr>tasks := (tasks d)[i :=
              (tasks d ! i)\<lparr>hidden := True, hiddenAt := Some (clk c)\<rparr>]\<rparr>"
  have r: "sameRecords d ?d" by (simp add: sameRecords_def recordOf_hidden)
  then have "map id_num (tasks ?d) = map id_num (tasks d)"
    by (simp add: id_num_recordOf sameRecords_def)
  then have "set (map id_num (tasks ?d)) = set (map id_num (tasks d))" by simp
  with Cons.prems have "id_num ` set ts \<subseteq> id_num ` set (tasks ?d)" by auto
  from Cons.IH [OF this, of "c + 1"] obtain d' c'
    where "hideEach clk ts ?d (c + 1) = Inr (d', c')" "sameRecords ?d d'" by blast
  with i sameRecords_trans [OF r] show ?case by auto
qed

lemma view_ids:
  "id_num ` set (getPendingTasks d) \<subseteq> id_num ` set (tasks d)"
  "id_num ` set (getArchivedTasks d) \<subseteq> id_num ` set (tasks d)"
  by (auto simp: getPendingTasks_def getArchivedTasks_def)

lemma deleteTask_effect:
  assumes l: "fst (loadTasks st) = Data data"
  shows "\<exists>st' m data'. deleteTask clk input st = Inr (st', m)
           \<and> fst (loadTasks st') = Data data' \<and> sameRecords data data'"
proof -
  have same: "\<exists>data'. fst (loadTasks st) = Data data' \<and> sameRecords data data'"
    using l by (simp add: sameRecords_refl)
  consider (all) "trim (toLowerCase input) = ''all''"
    | (archive) "trim (toLowerCase input) = ''archive''"
    | (number) "trim (toLowerCase input) \<noteq> ''all''" "trim (toLowerCase input) \<noteq> ''archive''"
    by blast
  then show ?thesis
  proof cases
    case all
    from hideEach_total [of "getPendingTasks data" data clk 0, OF view_ids(1)] obtain d' c'
      where h: "hideEach clk (getPendingTasks data) data 0 = Inr (d', c')" "sameRecords data d'"
      by blast
    from save_sameRecords [OF l h(2)] same h(1) show ?thesis
      by (auto simp: deleteTask_def taskDataOf_def l all Let_def case_prod_beta)
  next
    case archive
    from hideEach_total [of "getArchivedTasks data" data clk 0, OF view_ids(2)] obtain d' c'
      where h: "hideEach clk (getArchivedTasks data) data 0 = Inr (d', c')" "sameRecords data d'"
      by blast
    from save_sameRecords [OF l h(2)] same h(1) show ?thesis
      by (auto simp: deleteTask_def taskDataOf_def l archive Let_def case_prod_beta)
  next
    case number
    show ?thesis
    proof (cases "parseInt (trim (toLowerCase input))")
      case None
      with number same show ?thesis
        by (simp add: deleteTask_def Let_def case_prod_beta)
    next
      case (Some n)
      show ?thesis
      proof (cases "n < 1 \<or> int (length (getPendingTasks data)) < n")
        case True
        with number Some same show ?thesis
          by (auto simp: deleteTask_def taskDataOf_def l Let_def case_prod_beta)
      next
        case False
        define victim where "victim = getPendingTasks data ! nat (n - 1)"
        from False have "nat (n - 1) < length (getPendingTasks data)" by linarith
        then have "victim \<in> set (getPendingTasks data)" by (simp add: victim_def)
        then have "victim \<in> set (tasks data)" by (simp add: getPendingTasks_def)
        from findIndex_member [OF this] obtain i
          where i: "findIndex (\<lambda>u. id_num u = id_num victim) (tasks data) = Some i" by blast
        let ?d = "data\<lparr>tasks := (tasks data)[i :=
                    (tasks data ! i)\<lparr>hidden := True, hiddenAt := Some (clk 0)\<rparr>]\<rparr>"
        have "deleteTask clk input st =
            Inr (fst (saveTasks ?d st),
                 snd (loadTasks st) @ snd (saveTasks ?d st) @ [Deleted (name victim)])"
          using False number Some i [unfolded victim_def] unfolding victim_def
          by (simp add: deleteTask_def taskDataOf_def l Let_def case_prod_beta)
        moreover have "sameRecords data ?d"
          by (simp add: sameRecords_def recordOf_hidden)
        ultimately show ?thesis using save_sameRecords [OF l, of ?d] by auto
      qed
    qed
  qed
qed

text \<open>
  What a command does to a stored \<open>TaskData\<close>: it returns without an exception, and the
  storage holds a \<open>TaskData\<close> afterwards, which either has the records of the one before
  or, after \<open>add\<close>, has one more task, with the former \<open>nextId\<close> as id, and the incremented
  \<open>nextId\<close>.
\<close>

lemma processCommand_effect:
  assumes l: "fst (loadTasks st) = Data data"
  shows "\<exists>continue st' m data'.
     processCommand clk line st = Inr (continue, st', m)
     \<and> fst (loadTasks st') = Data data'
     \<and> (sameRecords data data'
        \<or> commandOf line = ''add''
          \<and> data' = \<lparr>tasks = tasks data @
                        [\<lparr>id_num = nextId data, name = argsOf line, completed = False,
                          hidden = False, createdAt = clk 0, completedAt = None,
                          hiddenAt = None\<rparr>],
                      nextId = increment (nextId data)\<rparr>)"
proof -
  have same: "\<exists>data'. fst (loadTasks st) = Data data' \<and> sameRecords data data'"
    using l by (simp add: sameRecords_refl)
  consider (empty) "trim line = []"
    | (exit) "commandOf line \<in> {''exit'', ''quit'', ''q''}"
    | (add) "commandOf line = ''add''"
    | (mark) "commandOf line = ''done''"
    | (delete) "commandOf line = ''delete''"
    | (views) "commandOf line \<in> {''display'', ''list'', ''show'', ''archive'', ''help'', ''location''}"
    | (other) "trim line \<noteq> []"
        "commandOf line \<notin> {''exit'', ''quit'', ''q'', ''add'', ''done'', ''delete'',
           ''display'', ''list'', ''show'', ''archive'', ''help'', ''location''}"
    by blast
  then show ?thesis
  proof cases
    case empty
    with same show ?thesis by (auto simp: processCommand_empty)
  next
    case exit
    with same show ?thesis by (auto simp: processCommand_exit)
  next
    case add
    show ?thesis
    proof (cases "argsOf line = []")
      case True
      with same show ?thesis by (auto simp: processCommand_add [OF add])
    next
      case False
      let ?d = "\<lparr>tasks = tasks data @
                        [\<lparr>id_num = nextId data, name = argsOf line, completed = False,
                          hidden = False, createdAt = clk 0, completedAt = None,
                          hiddenAt = None\<rparr>],
                      nextId = increment (nextId data)\<rparr>"
      have "processCommand clk line st =
          Inr (True, fst (saveTasks ?d st),
               snd (loadTasks st) @ snd (saveTasks ?d st)
                 @ [TaskAdded (argsOf line), SerialNumber (length (getPendingTasks ?d))])"
        using False by (simp add: processCommand_add [OF add] addTask_result [OF l] Let_def)
      moreover have "fst (loadTasks (fst (saveTasks ?d st)))
          = Data (if writable st then ?d else data)"
        by (rule load_after_save [OF l])
      ultimately show ?thesis using add by (auto simp: sameRecords_refl)
    qed
  next
    case mark
    show ?thesis
    proof (cases "parseInt (argsOf line)")
      case None
      with same show ?thesis by (auto simp: processCommand_done [OF mark])
    next
      case (Some n)
      from markDone_effect [OF l, of clk n] Some show ?thesis
        by (auto simp: processCommand_done [OF mark])
    qed
  next
    case delete
    from deleteTask_effect [OF l, of clk "argsOf line"] same show ?thesis
      by (auto simp: processCommand_delete [OF delete])
  next
    case views
    from processCommand_shows [OF views, of st data clk] l same show ?thesis by auto
  next
    case other
    with same show ?thesis by (auto simp: processCommand_other)
  qed
qed

lemma commands_keep:
  assumes "fst (loadTasks st) = Data data" and "\<bar>nextId data\<bar> < 2 ^ 53"
  shows "\<exists>continue st' m data'.
     processCommand clk line st = Inr (continue, st', m)
     \<and> fst (loadTasks st') = Data data'
     \<and> prefix (map recordOf (tasks data)) (map recordOf (tasks data'))
     \<and> (storageInvariant data \<longrightarrow> storageInvariant data')
     \<and> (sameRecords data data'
        \<or> commandOf line = ''add''
          \<and> data' = \<lparr>tasks = tasks data @
                        [\<lparr>id_num = nextId data, name = argsOf line, completed = False,
                          hidden = False, createdAt = clk 0, completedAt = None,
                          hiddenAt = None\<rparr>],
                      nextId = nextId data + 1\<rparr>)"
proof -
  let ?t = "\<lparr>id_num = nextId data, name = argsOf line, completed = False,
             hidden = False, createdAt = clk 0, completedAt = None, hiddenAt = None\<rparr>"
  from processCommand_effect [OF assms(1), of clk line] obtain continue st' m data'
    where p: "processCommand clk line st = Inr (continue, st', m)"
      and d: "fst (loadTasks st') = Data data'"
      and e: "sameRecords data data'
        \<or> commandOf line = ''add''
          \<and> data' = \<lparr>tasks = tasks data @ [?t], nextId = increment (nextId data)\<rparr>"
    by blast
  from e show ?thesis
  proof
    assume s: "sameRecords data data'"
    then have "prefix (map recordOf (tasks data)) (map recordOf (tasks data'))"
      by (simp add: sameRecords_def)
    with p d s sameRecords_invariant [OF s] show ?thesis by blast
  next
    assume a: "commandOf line = ''add''
          \<and> data' = \<lparr>tasks = tasks data @ [?t], nextId = increment (nextId data)\<rparr>"
    then have d': "data' = \<lparr>tasks = tasks data @ [?t], nextId = nextId data + 1\<rparr>"
      by (simp add: increment_exact [OF assms(2)])
    have "prefix (map recordOf (tasks data)) (map recordOf (tasks data'))"
      by (simp add: d')
    moreover have "storageInvariant data \<longrightarrow> storageInvariant data'"
      using storageInvariant_add [of data ?t] assms(2) a by simp
    ultimately show ?thesis using p d a d' by blast
  qed
qed

text \<open>
  C6, as the code has it. Let the storage hold a \<open>TaskData\<close> whose \<open>nextId\<close> is below
  \<open>2 ^ 53\<close> in absolute value. Every input line is processed without an exception, and the
  storage holds a \<open>TaskData\<close> afterwards that keeps every task record of the one before,
  in place (same id, name and creation time: a prefix of the new list of records), and
  that satisfies the storage invariant if the one before did: pairwise distinct ids, all
  below \<open>nextId\<close>. Either the records and \<open>nextId\<close> are the same as before, so that at most
  flags and timestamps of existing records have changed (\<open>done\<close>, \<open>delete\<close>, and the
  commands that change nothing), or the command was \<open>add\<close> and the data has one more task,
  with the former \<open>nextId\<close> as id, and \<open>nextId\<close> is one more than before.
\<close>

theorem commands_preserve_storage_invariant:
  assumes "fst (loadTasks st) = Data data" and "\<bar>nextId data\<bar> < 2 ^ 53"
  shows "\<exists>continue st' m data'.
     processCommand clk line st = Inr (continue, st', m)
     \<and> fst (loadTasks st') = Data data'
     \<and> prefix (map recordOf (tasks data)) (map recordOf (tasks data'))
     \<and> (storageInvariant data \<longrightarrow> storageInvariant data')
     \<and> (sameRecords data data'
        \<or> commandOf line = ''add''
          \<and> data' = \<lparr>tasks = tasks data @
                        [\<lparr>id_num = nextId data, name = argsOf line, completed = False,
                          hidden = False, createdAt = clk 0, completedAt = None,
                          hiddenAt = None\<rparr>],
                      nextId = nextId data + 1\<rparr>)"
  using assms by (rule commands_keep)

theorem commands_preserve_storage_invariant_witness:
  "storageInvariant sampleData
   \<and> (\<exists>continue st' m data'.
         processCommand sampleClock ''add Water plants'' sampleStore = Inr (continue, st', m)
         \<and> fst (loadTasks st') = Data data'
         \<and> prefix (map recordOf (tasks sampleData)) (map recordOf (tasks data'))
         \<and> storageInvariant data')"
proof -
  have l: "fst (loadTasks sampleStore) = Data sampleData"
    by (simp add: loadTasks_stringify sampleStore_def)
  have i: "storageInvariant sampleData"
    by (simp add: storageInvariant_def sampleData_def milk_def rent_def gone_def)
  have n: "\<bar>nextId sampleData\<bar> < 2 ^ 53" by (simp add: sampleData_def)
  from commands_preserve_storage_invariant [OF l n, of sampleClock "''add Water plants''"] i
  show ?thesis by blast
qed

text \<open>
  The claim as stated fails for a store whose \<open>nextId\<close> is \<open>2 ^ 53\<close>: it satisfies the
  storage invariant, and after \<open>add\<close> the stored \<open>nextId\<close> is the id of the new task, not
  above it.
\<close>

theorem invariant_counterexample:
  "fst (loadTasks limitStore) = Data limitData
   \<and> storageInvariant limitData
   \<and> processCommand sampleClock ''add Water plants'' limitStore =
       Inr (True, \<lparr>dataFile = Content (JSON_stringify limitNext), writable = True\<rparr>,
            [TaskAdded ''Water plants'', SerialNumber 1])
   \<and> fst (loadTasks \<lparr>dataFile = Content (JSON_stringify limitNext), writable = True\<rparr>)
       = Data limitNext
   \<and> \<not> storageInvariant limitNext"
  by (simp add: processCommand_def string_simps command_simps sample_simps Let_def
        storageInvariant_def)

section \<open>Sessions\<close>

text \<open>
  A whole session on a stored \<open>TaskData\<close>, in either mode, ends without an exception and
  keeps every task record in place. It preserves the storage invariant when \<open>nextId\<close>
  stays below \<open>2 ^ 53\<close>: at the start, its absolute value and the number of lines of the
  session together are at most \<open>2 ^ 53\<close>.
\<close>

lemma commandLoop_keeps:
  assumes "fst (loadTasks st) = Data data"
    and "\<bar>nextId data\<bar> + int (length input) \<le> 2 ^ 53"
  shows "\<exists>st' m data'. commandLoop input st = Inr (st', m)
           \<and> fst (loadTasks st') = Data data'
           \<and> prefix (map recordOf (tasks data)) (map recordOf (tasks data'))
           \<and> (storageInvariant data \<longrightarrow> storageInvariant data')"
  using assms
proof (induction input arbitrary: st data)
  case Nil
  then show ?case by simp
next
  case (Cons a input)
  obtain clk line where a: "a = (clk, line)" by (cases a)
  from Cons.prems(2) have b: "\<bar>nextId data\<bar> < 2 ^ 53" by simp
  from commands_keep [OF Cons.prems(1) b, of clk line] obtain continue st1 m1 data1
    where p: "processCommand clk line st = Inr (continue, st1, m1)"
      and d: "fst (loadTasks st1) = Data data1"
      and r: "prefix (map recordOf (tasks data)) (map recordOf (tasks data1))"
      and i: "storageInvariant data \<longrightarrow> storageInvariant data1"
      and n: "nextId data1 = nextId data \<or> nextId data1 = nextId data + 1"
    by (auto simp: sameRecords_def)
  from n Cons.prems(2) have "\<bar>nextId data1\<bar> + int (length input) \<le> 2 ^ 53" by auto
  from Cons.IH [OF d this] obtain st2 m2 data2
    where l: "commandLoop input st1 = Inr (st2, m2)"
      and d2: "fst (loadTasks st2) = Data data2"
      and r2: "prefix (map recordOf (tasks data1)) (map recordOf (tasks data2))"
      and i2: "storageInvariant data1 \<longrightarrow> storageInvariant data2"
    by blast
  from r r2 have "prefix (map recordOf (tasks data)) (map recordOf (tasks data2))" by simp
  with p d l d2 r i i2 show ?case by (cases continue) (auto simp: a)
qed

lemma interactiveMode_keeps:
  assumes "fst (loadTasks st) = Data data"
    and "\<bar>nextId data\<bar> + int (length input) \<le> 2 ^ 53"
  shows "\<exists>st' m data'. interactiveMode input st = Inr (st', m)
           \<and> fst (loadTasks st') = Data data'
           \<and> prefix (map recordOf (tasks data)) (map recordOf (tasks data'))
           \<and> (storageInvariant data \<longrightarrow> storageInvariant data')"
  using commandLoop_keeps [OF assms] by (auto simp: interactiveMode_def showHelp_def)

lemma singleCommandMode_keeps:
  assumes "fst (loadTasks st) = Data data" and "\<bar>nextId data\<bar> < 2 ^ 53"
  shows "\<exists>st' m data'. singleCommandMode clk args st = Inr (st', m)
           \<and> fst (loadTasks st') = Data data'
           \<and> prefix (map recordOf (tasks data)) (map recordOf (tasks data'))
           \<and> (storageInvariant data \<longrightarrow> storageInvariant data')"
  using commands_keep [OF assms, of clk "join_sp args"] by (auto simp: singleCommandMode_def)

text \<open>
  The scenario of the specification (section 8): two tasks are added, the first is
  completed, the second deleted, then the archive is deleted. Storage holds both tasks in
  the end, both hidden.
\<close>

lemma scenario_of_the_specification:
  "commandLoop [(sampleClock, ''add Buy milk''), (sampleClock, ''add Pay rent''),
                (sampleClock, ''done 1''), (sampleClock, ''delete 1''),
                (sampleClock, ''delete archive'')] emptyStore =
   Inr (\<lparr>dataFile = Content (JSON_stringify \<lparr>tasks =
           [\<lparr>id_num = 1, name = ''Buy milk'', completed = True, hidden = True,
             createdAt = ''2025-01-15T12:00:00.000Z'',
             completedAt = Some ''2025-01-15T12:00:00.000Z'',
             hiddenAt = Some ''2025-01-15T12:00:00.000Z''\<rparr>,
            \<lparr>id_num = 2, name = ''Pay rent'', completed = False, hidden = True,
             createdAt = ''2025-01-15T12:00:00.000Z'', completedAt = None,
             hiddenAt = Some ''2025-01-15T12:00:00.000Z''\<rparr>],
           nextId = 3\<rparr>), writable = True\<rparr>,
        [TaskAdded ''Buy milk'', SerialNumber 1, TaskAdded ''Pay rent'', SerialNumber 2,
         Completed ''Buy milk'', Deleted ''Pay rent'', DeletedArchived 1])"
  by (simp add: processCommand_def string_simps command_simps sample_simps Let_def)

section \<open>The command \<open>clear\<close>\<close>

text \<open>
  C8, as the code has it. \<open>clear\<close> is not a command: a line whose first word is \<open>clear\<close>
  (in any case) is reported as an unknown command, with the hint to type \<open>help\<close>; the
  session goes on and the storage is unchanged. (An earlier version of the program, which
  had neither \<open>delete\<close> nor hidden tasks, emptied the storage on \<open>clear\<close>; the \<open>switch\<close> of
  lines 263-313 has no such case.)
\<close>

theorem clear_is_unknown:
  assumes "commandOf line = ''clear''"
  shows "processCommand clk line st = Inr (True, st, [UnknownCommand ''clear'', HelpHint])"
  using processCommand_unknown [of line clk st] assms by simp

theorem clear_is_unknown_witness:
  "processCommand sampleClock '' CLEAR  all'' emptyStore
     = Inr (True, emptyStore, [UnknownCommand ''clear'', HelpHint])"
proof -
  have c: "commandOf '' CLEAR  all'' = ''clear''" by (simp add: string_simps)
  show ?thesis using clear_is_unknown [OF c] by simp
qed

text \<open>The claim as stated fails on the line \<open>clear\<close>: no operation on tasks runs.\<close>

theorem clear_counterexample:
  "processCommand sampleClock ''clear'' sampleStore
     = Inr (True, sampleStore, [UnknownCommand ''clear'', HelpHint])"
  by (simp add: processCommand_def string_simps)

section \<open>The commands that only show\<close>

text \<open>
  C9. Let the storage hold a \<open>TaskData\<close> (for \<open>help\<close> and \<open>location\<close> it can hold
  anything). A line whose command is \<open>display\<close>, \<open>list\<close>, \<open>show\<close>, \<open>archive\<close>, \<open>help\<close> or
  \<open>location\<close> returns the storage it was given: no task field is changed and nothing is
  written. What it prints is what \<open>displayTasks\<close>, \<open>showArchive\<close>, \<open>showHelp\<close> or
  \<open>showLocation\<close> prints, and these return the storage they were given, too.
\<close>

theorem views_leave_storage_unchanged:
  assumes "commandOf line \<in> {''display'', ''list'', ''show'', ''archive'', ''help'', ''location''}"
    and "commandOf line \<in> {''help'', ''location''} \<or> fst (loadTasks st) = Data data"
  shows "\<exists>m. processCommand clk line st = Inr (True, st, m)
     \<and> (commandOf line \<in> {''display'', ''list'', ''show''} \<longrightarrow> displayTasks st = Inr (st, m))
     \<and> (commandOf line = ''archive'' \<longrightarrow> showArchive st = Inr (st, m))
     \<and> (commandOf line = ''help'' \<longrightarrow> showHelp st = (st, m))
     \<and> (commandOf line = ''location'' \<longrightarrow> showLocation st = (st, m))"
  using assms by (rule processCommand_shows)

theorem views_leave_storage_unchanged_witness:
  "processCommand sampleClock ''list'' sampleStore
     = Inr (True, sampleStore,
            [Rule, PendingTitle, Rule, PendingItem 1 ''Buy milk'', Rule, PendingTotal 1, Rule])
   \<and> processCommand sampleClock ''archive'' sampleStore
     = Inr (True, sampleStore,
            [Rule, ArchiveTitle, Rule, ArchiveItem 1 ''Pay rent'',
             ArchiveCompletedAt (Some ''2025-01-15T11:00:00.000Z''), Rule, ArchiveTotal 1, Rule])
   \<and> processCommand sampleClock ''help'' sampleStore = Inr (True, sampleStore, [HelpText])
   \<and> processCommand sampleClock ''location'' sampleStore
     = Inr (True, sampleStore, [LocationTitle, LocationPath, FileExists True])"
proof -
  have c: "commandOf ''list'' = ''list''" "commandOf ''archive'' = ''archive''"
    "commandOf ''help'' = ''help''" "commandOf ''location'' = ''location''"
    by (simp_all add: string_simps)
  have l: "fst (loadTasks sampleStore) = Data sampleData"
    by (simp add: loadTasks_stringify sampleStore_def)
  have d: "displayTasks sampleStore = Inr (sampleStore,
      [Rule, PendingTitle, Rule, PendingItem 1 ''Buy milk'', Rule, PendingTotal 1, Rule])"
    and a: "showArchive sampleStore = Inr (sampleStore,
      [Rule, ArchiveTitle, Rule, ArchiveItem 1 ''Pay rent'',
       ArchiveCompletedAt (Some ''2025-01-15T11:00:00.000Z''), Rule, ArchiveTotal 1, Rule])"
    and h: "showHelp sampleStore = (sampleStore, [HelpText])"
    and p: "showLocation sampleStore
      = (sampleStore, [LocationTitle, LocationPath, FileExists True])"
    by (simp_all add: command_simps sample_simps enumerate_eq_zip)
  show ?thesis
    using views_leave_storage_unchanged [of "''list''" sampleStore sampleData sampleClock]
      views_leave_storage_unchanged [of "''archive''" sampleStore sampleData sampleClock]
      views_leave_storage_unchanged [of "''help''" sampleStore sampleData sampleClock]
      views_leave_storage_unchanged [of "''location''" sampleStore sampleData sampleClock]
    by (auto simp add: c l d a h p)
qed

section \<open>The argument string\<close>

lemma addTask_name:
  assumes "writable st" and "fst (loadTasks st) = Data data"
  shows "\<exists>st' m data'. addTask clk taskName st = Inr (st', m)
           \<and> fst (loadTasks st') = Data data' \<and> name (last (tasks data')) = taskName"
  using assms(1) by (simp add: addTask_result [OF assms(2)] Let_def save_then_load)

text \<open>
  C10. The argument string of a line is the pieces of the trimmed line after the first,
  joined with single spaces. It is what remains of the trimmed line after its first word
  and the white space behind it, with every run of white space collapsed to one space.
  \<open>add\<close> gets this string as the task name and stores it (in a storage that holds a
  \<open>TaskData\<close> and can be written); \<open>done\<close> parses it; \<open>delete\<close> gets it as its input.
\<close>

theorem args_are_rejoined_tokens:
  "argsOf line = join_sp (tl (split_ws (trim line)))
   \<and> argsOf line = collapse_ws (dropWhile isWhite (dropWhile (\<lambda>c. \<not> isWhite c) (trim line)))
   \<and> (commandOf line = ''add'' \<and> argsOf line \<noteq> [] \<longrightarrow>
        processCommand clk line st =
          (case addTask clk (argsOf line) st of
             Inl e \<Rightarrow> Inl e
           | Inr (st', m) \<Rightarrow> Inr (True, st', m))
        \<and> (writable st \<and> fst (loadTasks st) = Data data \<longrightarrow>
             (\<exists>st' m data'. addTask clk (argsOf line) st = Inr (st', m)
                \<and> fst (loadTasks st') = Data data'
                \<and> name (last (tasks data'))
                    = collapse_ws (dropWhile isWhite
                        (dropWhile (\<lambda>c. \<not> isWhite c) (trim line))))))
   \<and> (commandOf line = ''done'' \<longrightarrow>
        processCommand clk line st =
          (case parseInt (argsOf line) of
             None \<Rightarrow> Inr (True, st, [ProvideValidNumber, DoneUsage])
           | Some doneNum \<Rightarrow>
               (case markDone clk doneNum st of
                  Inl e \<Rightarrow> Inl e
                | Inr (st', m) \<Rightarrow> Inr (True, st', m))))
   \<and> (commandOf line = ''delete'' \<and> argsOf line \<noteq> [] \<longrightarrow>
        processCommand clk line st =
          (case deleteTask clk (argsOf line) st of
             Inl e \<Rightarrow> Inl e
           | Inr (st', m) \<Rightarrow> Inr (True, st', m)))"
proof (intro conjI impI)
  show "argsOf line = join_sp (tl (split_ws (trim line)))" by (simp add: argsOf_def)
  show "argsOf line = collapse_ws (dropWhile isWhite (dropWhile (\<lambda>c. \<not> isWhite c) (trim line)))"
    by (rule argsOf_collapse)
next
  assume "commandOf line = ''add'' \<and> argsOf line \<noteq> []"
  then show "processCommand clk line st =
          (case addTask clk (argsOf line) st of
             Inl e \<Rightarrow> Inl e
           | Inr (st', m) \<Rightarrow> Inr (True, st', m))"
    by (simp add: processCommand_add)
next
  assume "writable st \<and> fst (loadTasks st) = Data data"
  then have "\<exists>st' m data'. addTask clk (argsOf line) st = Inr (st', m)
      \<and> fst (loadTasks st') = Data data' \<and> name (last (tasks data')) = argsOf line"
    using addTask_name [of st data clk "argsOf line"] by blast
  then show "\<exists>st' m data'. addTask clk (argsOf line) st = Inr (st', m)
      \<and> fst (loadTasks st') = Data data'
      \<and> name (last (tasks data'))
          = collapse_ws (dropWhile isWhite (dropWhile (\<lambda>c. \<not> isWhite c) (trim line)))"
    using argsOf_collapse [of line] by simp
next
  assume "commandOf line = ''done''"
  then show "processCommand clk line st =
          (case parseInt (argsOf line) of
             None \<Rightarrow> Inr (True, st, [ProvideValidNumber, DoneUsage])
           | Some doneNum \<Rightarrow>
               (case markDone clk doneNum st of
                  Inl e \<Rightarrow> Inl e
                | Inr (st', m) \<Rightarrow> Inr (True, st', m)))"
    by (rule processCommand_done)
next
  assume "commandOf line = ''delete'' \<and> argsOf line \<noteq> []"
  then show "processCommand clk line st =
          (case deleteTask clk (argsOf line) st of
             Inl e \<Rightarrow> Inl e
           | Inr (st', m) \<Rightarrow> Inr (True, st', m))"
    by (simp add: processCommand_delete)
qed

text \<open>Two spaces, a tab and a trailing space in the name: stored as \<open>Buy milk\<close>.\<close>

theorem args_are_rejoined_tokens_witness:
  "argsOf spacedLine = ''Buy milk''
   \<and> processCommand sampleClock spacedLine emptyStore =
       Inr (True,
            \<lparr>dataFile = Content (JSON_stringify \<lparr>tasks =
               [\<lparr>id_num = 1, name = ''Buy milk'', completed = False, hidden = False,
                 createdAt = ''2025-01-15T12:00:00.000Z'', completedAt = None, hiddenAt = None\<rparr>],
               nextId = 2\<rparr>), writable = True\<rparr>,
            [TaskAdded ''Buy milk'', SerialNumber 1])"
proof -
  have c: "commandOf spacedLine = ''add''" and a: "argsOf spacedLine = ''Buy milk''"
    by (simp_all add: spacedLine_def string_simps)
  have r: "addTask sampleClock ''Buy milk'' emptyStore =
       Inr (\<lparr>dataFile = Content (JSON_stringify \<lparr>tasks =
               [\<lparr>id_num = 1, name = ''Buy milk'', completed = False, hidden = False,
                 createdAt = ''2025-01-15T12:00:00.000Z'', completedAt = None, hiddenAt = None\<rparr>],
               nextId = 2\<rparr>), writable = True\<rparr>,
            [TaskAdded ''Buy milk'', SerialNumber 1])"
    by (simp add: command_simps sample_simps Let_def)
  show ?thesis
    using args_are_rejoined_tokens [of spacedLine sampleClock emptyStore]
    by (simp add: c a r)
qed

section \<open>Files that hold no \<open>TaskData\<close>\<close>

text \<open>
  On a file whose value is no \<open>TaskData\<close>, a command that uses the data raises a
  \<open>TypeError\<close> when the value has no array \<open>tasks\<close>, and is outside the model when it has
  one. The commands and branches that do not use the data run as on any file.
\<close>

lemma commands_on_other:
  assumes "fst (loadTasks st) = Other j"
  shows "addTask clk taskName st = Inl (if hasTasksArray j then OutsideModel else TypeError)"
    and "displayTasks st = Inl (if hasTasksArray j then OutsideModel else TypeError)"
    and "showArchive st = Inl (if hasTasksArray j then OutsideModel else TypeError)"
    and "markDone clk n st = Inl (if hasTasksArray j then OutsideModel else TypeError)"
    and "trim (toLowerCase input) = ''all'' \<or> trim (toLowerCase input) = ''archive''
           \<or> parseInt (trim (toLowerCase input)) \<noteq> None \<Longrightarrow>
         deleteTask clk input st = Inl (if hasTasksArray j then OutsideModel else TypeError)"
    and "trim (toLowerCase input) \<noteq> ''all'' \<Longrightarrow> trim (toLowerCase input) \<noteq> ''archive'' \<Longrightarrow>
         parseInt (trim (toLowerCase input)) = None \<Longrightarrow>
         deleteTask clk input st = Inr (st, snd (loadTasks st) @ [InvalidInput, DeleteUsage])"
  using assms
  by (auto simp: addTask_def displayTasks_def showArchive_def markDone_def deleteTask_def
        taskDataOf_def Let_def case_prod_beta)

lemma JSON_parse_null: "JSON_parse ''null'' = Some JNull"
  unfolding JSON_parse_def
  by (subst parse.simps) (simp add: skip_ws_def isJsonWhite_def)

lemma loadTasks_null: "loadTasks nullStore = (Other JNull, [])"
  by (simp add: loadTasks_def nullStore_def JSON_parse_null asTaskData_def)

lemma null_file:
  "processCommand sampleClock ''list'' nullStore = Inl TypeError"
  "processCommand sampleClock ''archive'' nullStore = Inl TypeError"
  "processCommand sampleClock ''add Buy milk'' nullStore = Inl TypeError"
  "processCommand sampleClock ''done 1'' nullStore = Inl TypeError"
  "processCommand sampleClock ''delete all'' nullStore = Inl TypeError"
  "processCommand sampleClock ''delete soon'' nullStore
     = Inr (True, nullStore, [InvalidInput, DeleteUsage])"
  "processCommand sampleClock ''done soon'' nullStore
     = Inr (True, nullStore, [ProvideValidNumber, DoneUsage])"
  "processCommand sampleClock ''help'' nullStore = Inr (True, nullStore, [HelpText])"
  by (simp_all add: processCommand_def string_simps addTask_def displayTasks_def
        showArchive_def markDone_def deleteTask_def showHelp_def taskDataOf_def
        loadTasks_null hasTasksArray_def Let_def)

lemma roundTrips_legacy: "roundTrips 0 legacyValue"
  unfolding legacyValue_def
  by (rule roundTrips_object)
     (auto simp: roundTrips_number roundTrips_string roundTrips_bool
           intro!: roundTrips_array roundTrips_object)

lemma loadTasks_legacy: "loadTasks legacyStore = (Other legacyValue, [])"
proof -
  have "parse Value (pp 0 legacyValue @ []) = Some (legacyValue, [])"
    using roundTrips_legacy by (simp add: roundTrips_def okRest_simps del: append_Nil2)
  then have "JSON_parse (pp 0 legacyValue) = Some legacyValue"
    by (simp add: JSON_parse_def skip_ws_def)
  moreover have "asTaskData legacyValue = None"
    by (simp add: asTaskData_def asTask_def legacyValue_def property_def onlyKeys_def
          optionalString_def)
  ultimately show ?thesis by (simp add: loadTasks_def legacyStore_def)
qed

lemma legacy_file: "processCommand sampleClock ''list'' legacyStore = Inl OutsideModel"
  by (simp add: processCommand_def string_simps displayTasks_def taskDataOf_def
        loadTasks_legacy hasTasksArray_def legacyValue_def property_def Let_def)

end
